theory Spec2Isabelle
  imports Complex_Main "HOL-Library.Word" "HOL-Library.Log_Nat" "HOL-Library.Multiset"
begin

section \<open>JavaScript values used by the tokenizer\<close>

text \<open>
  A JavaScript string is a sequence of 16-bit code units: \<open>text.length\<close> counts them,
  \<open>text[i]\<close> and \<open>charCodeAt\<close> read one, \<open>String.fromCharCode\<close> builds one from a
  number reduced modulo \<open>2 ^ 16\<close>. Token ids are JavaScript numbers holding integers.
\<close>

type_synonym jschar = "16 word"
type_synonym jsstring = "jschar list"

text \<open>A string literal of the source (all of them are ASCII).\<close>

definition str :: "string \<Rightarrow> jsstring" where
  "str s = map of_char s"

text \<open>\<open>s.charCodeAt(0)\<close> of a non-empty string.\<close>

fun charCodeAt0 :: "jsstring \<Rightarrow> int" where
  "charCodeAt0 (c # cs) = uint c"
| "charCodeAt0 [] = 0"

text \<open>\<open>String.fromCharCode(n)\<close> for an integer \<open>n\<close>: the code unit \<open>n mod 2 ^ 16\<close>.\<close>

definition fromCharCode :: "int \<Rightarrow> jsstring" where
  "fromCharCode n = [word_of_int n]"

text \<open>
  Numbers are IEEE doubles. Every integer of magnitude up to \<open>2 ^ 53\<close> is a double, and
  sums and differences that stay in that range are exact. Above it, the result of an
  operation is the nearest double, ties to the even significand. \<open>js_nearest n\<close> is that
  double for an exact integer result \<open>n \<ge> 0\<close> (below the overflow threshold), and
  \<open>js_sub a b\<close> is the subtraction \<open>a - b\<close> of the source for \<open>a \<ge> b\<close>.
\<close>

definition js_nearest :: "int \<Rightarrow> int" where
  "js_nearest n =
     (if n < 2 ^ 53 then n
      else let k = nat (bitlen n - 53); q = n div 2 ^ k; r = n mod 2 ^ k in
        if 2 * r < 2 ^ k then q * 2 ^ k
        else if 2 ^ k < 2 * r then (q + 1) * 2 ^ k
        else (if even q then q else q + 1) * 2 ^ k)"

definition js_sub :: "int \<Rightarrow> int \<Rightarrow> int" where
  "js_sub a b = js_nearest (a - b)"

text \<open>
  Division and multiplication give the double nearest to the exact quotient or product,
  ties to the even significand. A double in the normal range is \<open>m * 2 ^ e\<close> with
  \<open>2 ^ 52 \<le> m < 2 ^ 53\<close>; \<open>binaryExponent q\<close> is the \<open>E\<close> with \<open>2 ^ E \<le> q < 2 ^ (E + 1)\<close>
  for an exact result \<open>q > 0\<close>, and \<open>nearestDouble q\<close> rounds \<open>q\<close> to 53 significant
  bits. (Results here lie between \<open>2 ^ -53\<close> and 100, far from the subnormal and the
  overflow range, which are not modelled.)
\<close>

definition roundHalfEven :: "rat \<Rightarrow> int" where
  "roundHalfEven q =
     (let f = \<lfloor>q\<rfloor>; r = q - of_int f in
      if r < 1 / 2 then f else if 1 / 2 < r then f + 1 else if even f then f else f + 1)"

definition binaryExponent :: "rat \<Rightarrow> int" where
  "binaryExponent q =
     (let p = fst (quotient_of q); d = snd (quotient_of q); k = bitlen p - bitlen d in
      if 2 powi k \<le> q then k else k - 1)"

definition nearestDouble :: "rat \<Rightarrow> rat" where
  "nearestDouble q =
     (if q = 0 then 0
      else let e = binaryExponent q - 52 in of_int (roundHalfEven (q / 2 powi e)) * 2 powi e)"

definition js_div :: "rat \<Rightarrow> rat \<Rightarrow> rat" where
  "js_div x y = nearestDouble (x / y)"

definition js_mul :: "rat \<Rightarrow> rat \<Rightarrow> rat" where
  "js_mul x y = nearestDouble (x * y)"

text \<open>
  \<open>String.prototype.toLowerCase\<close>. On a string of ASCII code units it maps \<open>A\<close>..\<open>Z\<close>
  to \<open>a\<close>..\<open>z\<close> and nothing else. On any other string the result is given by the
  Unicode case tables, which are not part of this repository: they are the parameter
  \<open>uc\<close>, and every theorem below holds for every \<open>uc\<close>.
\<close>

definition asciiLower :: "jschar \<Rightarrow> jschar" where
  "asciiLower c = (if 0x41 \<le> c \<and> c \<le> 0x5A then c + 0x20 else c)"

definition toLowerCase :: "(jsstring \<Rightarrow> jsstring) \<Rightarrow> jsstring \<Rightarrow> jsstring" where
  "toLowerCase uc s = (if list_all (\<lambda>c. c < 0x80) s then map asciiLower s else uc s)"

text \<open>
  \<open>Array.from(word)\<close> iterates a string by code points: a high surrogate followed by a
  low surrogate is one element of two code units, every other code unit is an element
  of its own.
\<close>

definition isHighSurrogate :: "jschar \<Rightarrow> bool" where
  "isHighSurrogate c = (0xD800 \<le> c \<and> c \<le> 0xDBFF)"

definition isLowSurrogate :: "jschar \<Rightarrow> bool" where
  "isLowSurrogate c = (0xDC00 \<le> c \<and> c \<le> 0xDFFF)"

fun arrayFrom :: "jsstring \<Rightarrow> jsstring list" where
  "arrayFrom (h # l # cs) =
     (if isHighSurrogate h \<and> isLowSurrogate l then [h, l] # arrayFrom cs
      else [h] # arrayFrom (l # cs))"
| "arrayFrom [c] = [[c]]"
| "arrayFrom [] = []"

text \<open>
  A \<open>Map\<close> keeps its entries in insertion order; \<open>set\<close> on a key already present
  replaces the value in place. \<open>has\<close> and \<open>get\<close> are \<^const>\<open>map_of\<close>.
\<close>

fun map_set :: "'k \<Rightarrow> 'v \<Rightarrow> ('k \<times> 'v) list \<Rightarrow> ('k \<times> 'v) list" where
  "map_set k v [] = [(k, v)]"
| "map_set k v (p # ps) = (if fst p = k then (k, v) # ps else p # map_set k v ps)"

section \<open>The character classes of \<open>tokenizeWords\<close>\<close>

text \<open>
  The regular expression \<open>\s\<close> (without the \<open>u\<close> flag it tests one code unit): the
  white space and line terminator code points of ECMAScript.
\<close>

definition isWhitespace :: "jschar \<Rightarrow> bool" where
  "isWhitespace c =
     (c \<in> set [0x09, 0x0A, 0x0B, 0x0C, 0x0D, 0x20, 0xA0, 0x1680, 0x2028, 0x2029,
                0x202F, 0x205F, 0x3000, 0xFEFF]
      \<or> (0x2000 \<le> c \<and> c \<le> 0x200A))"

text \<open>The character class \<open>[.,!?;:"'()\[\]{}\-_+=*\/\\|@#$%^&<>~`]\<close>.\<close>

definition punctuationClass :: "jschar list" where
  "punctuationClass =
     str ''.,!?;:'' @ [0x22, 0x27] @ str ''()[]'' @ [0x7B, 0x7D] @ str ''-_+=*/'' @ [0x5C]
     @ str ''|'' @ [0x40] @ str ''#$%^&<>~'' @ [0x60]"

definition isPunctuation :: "jschar \<Rightarrow> bool" where
  "isPunctuation c = (c \<in> set punctuationClass)"

definition space :: jschar where
  "space = 0x20"

section \<open>\<open>tokenizeWords\<close>\<close>

text \<open>
  One iteration of the \<open>for\<close> loop over the code units of the text. The loop state is
  the array \<open>tokens\<close> and the string \<open>currentToken\<close>; an empty \<open>currentToken\<close> is falsy.
\<close>

definition tokenizeChar :: "jschar \<Rightarrow> jsstring list \<times> jsstring \<Rightarrow> jsstring list \<times> jsstring" where
  "tokenizeChar char st =
     (let tokens = fst st; currentToken = snd st in
      if isWhitespace char then
        (let tokens1 = (if currentToken \<noteq> [] then tokens @ [currentToken] else tokens) in
         (if char \<noteq> space then tokens1 @ [[char]] else tokens1, []))
      else if isPunctuation char then
        (let tokens1 = (if currentToken \<noteq> [] then tokens @ [currentToken] else tokens) in
         (tokens1 @ [[char]], []))
      else (tokens, currentToken @ [char]))"

definition tokenizeWords :: "jsstring \<Rightarrow> jsstring list" where
  "tokenizeWords text =
     (let st = fold tokenizeChar text ([], []); tokens = fst st; currentToken = snd st in
      if currentToken \<noteq> [] then tokens @ [currentToken] else tokens)"

section \<open>The tokenizer object\<close>

text \<open>
  A trace step is the object \<open>{step, input, process, output}\<close>. Its \<open>input\<close> and
  \<open>output\<close> hold a string, a number, an array of numbers or \<open>null\<close>. Its \<open>process\<close>
  is one of the five template literals of the source (or the empty string it starts
  with), kept here with the value that fills the template's hole:
  \<^item> \<open>Found_in_vocabulary word\<close>: \<open>Found "${word}" in vocabulary\<close>
  \<^item> \<open>Not_in_vocabulary word\<close>: \<open>"${word}" not in vocabulary, using ASCII encoding\<close>
  \<^item> \<open>Token_found token\<close>: \<open>Token ${token} found in vocabulary\<close>
  \<^item> \<open>Token_decoded_from_ASCII token\<close>: \<open>Token ${token} decoded from ASCII\<close>
  \<^item> \<open>Token_not_found token\<close>: \<open>Token ${token} not found, using <UNK>\<close>
\<close>

datatype js_value = Null | Num int | Str jsstring | Arr "int list"

datatype process_text =
    No_process
  | Found_in_vocabulary jsstring
  | Not_in_vocabulary jsstring
  | Token_found int
  | Token_decoded_from_ASCII int
  | Token_not_found int

record trace_step =
  step :: nat
  input :: js_value
  process :: process_text
  "output" :: js_value

text \<open>
  The fields of a \<open>TokenVisualizer\<close>, together with the arrays of trace steps that
  live on the heap. \<open>encodingSteps\<close> and \<open>decodingSteps\<close> are references into
  \<open>arrays\<close>, and so is the \<open>steps\<close> field of a returned result, which is the very
  array the object's field points to: \<open>[]\<close> allocates a new array, \<open>push\<close> changes
  the array a reference points to.
\<close>

type_synonym ref = nat

record tokenizer =
  vocabulary :: "(jsstring \<times> int) list"
  reverseVocabulary :: "(int \<times> jsstring) list"
  asciiOffset :: int
  encodingSteps :: ref
  decodingSteps :: ref
  arrays :: "trace_step list list"

definition newArray :: "tokenizer \<Rightarrow> ref \<times> tokenizer" where
  "newArray this = (length (arrays this), this\<lparr>arrays := arrays this @ [[]]\<rparr>)"

text \<open>
  \<open>push\<close> is only ever applied to a reference that \<open>newArray\<close> has returned, which
  is within \<open>arrays\<close>.
\<close>

definition push :: "ref \<Rightarrow> trace_step \<Rightarrow> tokenizer \<Rightarrow> tokenizer" where
  "push a x this = this\<lparr>arrays := (arrays this)[a := arrays this ! a @ [x]]\<rparr>"

section \<open>\<open>initializeVocabulary\<close> and the constructor\<close>

definition specialTokens :: "jsstring list" where
  "specialTokens = map str
     [''<PAD>'', ''<UNK>'', ''<START>'', ''<END>'', ''<MASK>'',
      ''<CLS>'', ''<SEP>'', ''<NEWLINE>'', ''<TAB>'', ''<SPACE>'']"

definition commonWords :: "jsstring list" where
  "commonWords = map str
     [''the'', ''be'', ''to'', ''of'', ''and'', ''a'', ''in'', ''that'', ''have'', ''i'',
      ''it'', ''for'', ''not'', ''on'', ''with'', ''he'', ''as'', ''you'', ''do'', ''at'',
      ''this'', ''but'', ''his'', ''by'', ''from'', ''they'', ''we'', ''say'', ''her'', ''she'',
      ''or'', ''an'', ''will'', ''my'', ''one'', ''all'', ''would'', ''there'', ''their'',
      ''what'', ''so'', ''up'', ''out'', ''if'', ''about'', ''who'', ''get'', ''which'', ''go'',
      ''me'', ''when'', ''make'', ''can'', ''like'', ''time'', ''no'', ''just'', ''him'', ''know'',
      ''take'', ''people'', ''into'', ''year'', ''your'', ''good'', ''some'', ''could'', ''them'',
      ''see'', ''other'', ''than'', ''then'', ''now'', ''look'', ''only'', ''come'', ''its'', ''over'',
      ''think'', ''also'', ''back'', ''after'', ''use'', ''two'', ''how'', ''our'', ''work'',
      ''first'', ''well'', ''way'', ''even'', ''new'', ''want'', ''because'', ''any'', ''these'',
      ''give'', ''day'', ''most'', ''us'', ''is'', ''was'', ''are'', ''been'', ''has'', ''had'',
      ''were'', ''said'', ''each'', ''which'', ''their'', ''time'', ''will'', ''about'', ''if'',
      ''up'', ''out'', ''many'', ''then'', ''them'', ''these'', ''so'', ''some'', ''her'', ''would'',
      ''make'', ''like'', ''into'', ''him'', ''has'', ''two'', ''more'', ''very'', ''what'', ''know'',
      ''just'', ''first'', ''get'', ''over'', ''think'', ''where'', ''much'', ''go'', ''well'',
      ''were'', ''been'', ''have'', ''had'', ''has'', ''said'', ''each'', ''which'', ''she'',
      ''do'', ''how'', ''their'', ''if'', ''will'', ''up'', ''other'', ''about'', ''out'', ''many'']"

text \<open>
  The \<open>punctuation\<close> array: the 32 characters of the class above in the same order,
  then newline, tab and space.
\<close>

definition punctuation :: "jsstring list" where
  "punctuation = map (\<lambda>c. [c]) (punctuationClass @ [0x0A, 0x09, 0x20])"

text \<open>
  The body of the three \<open>forEach\<close> loops: the loop state is the object and the local
  counter \<open>tokenId\<close>.
\<close>

definition addEntry :: "jsstring \<Rightarrow> tokenizer \<times> int \<Rightarrow> tokenizer \<times> int" where
  "addEntry token st =
     (let this = fst st; tokenId = snd st in
      (this\<lparr>vocabulary := map_set token tokenId (vocabulary this),
            reverseVocabulary := map_set tokenId token (reverseVocabulary this)\<rparr>,
       tokenId + 1))"

definition initializeVocabulary :: "(jsstring \<Rightarrow> jsstring) \<Rightarrow> tokenizer \<Rightarrow> tokenizer" where
  "initializeVocabulary uc this =
     (let this1 = this\<lparr>vocabulary := [], reverseVocabulary := []\<rparr>;
          st1 = fold addEntry specialTokens (this1, 0);
          st2 = fold (\<lambda>word. addEntry (toLowerCase uc word)) commonWords st1;
          st3 = fold addEntry punctuation st2
      in (fst st3)\<lparr>asciiOffset := 2000\<rparr>)"

text \<open>
  The constructor. Before it runs the object has no fields; the values given to them
  here are all overwritten.
\<close>

definition blank :: tokenizer where
  "blank = \<lparr>vocabulary = [], reverseVocabulary = [], asciiOffset = 0,
            encodingSteps = 0, decodingSteps = 0, arrays = []\<rparr>"

definition TokenVisualizer :: "(jsstring \<Rightarrow> jsstring) \<Rightarrow> tokenizer" where
  "TokenVisualizer uc =
     (let this1 = initializeVocabulary uc blank;
          a1 = newArray this1;
          this2 = (snd a1)\<lparr>encodingSteps := fst a1\<rparr>;
          a2 = newArray this2
      in (snd a2)\<lparr>decodingSteps := fst a2\<rparr>)"

section \<open>\<open>encodeText\<close>\<close>

text \<open>The result objects. A field that a result object does not have is \<open>None\<close>.\<close>

record encode_result =
  tokens :: "int list"
  steps :: ref
  originalText :: "jsstring option"
  tokenCount :: "nat option"
  characterCount :: "nat option"

text \<open>
  \<open>encodeToAscii\<close>: a code is below \<open>2 ^ 16\<close>, so its sum with the offset is exact.
\<close>

definition encodeToAscii :: "tokenizer \<Rightarrow> jsstring \<Rightarrow> int list" where
  "encodeToAscii this word = map (\<lambda>char. charCodeAt0 char + asciiOffset this) (arrayFrom word)"

text \<open>The callback of \<open>words.forEach\<close>; the loop state is the array \<open>tokens\<close> and the heap.\<close>

definition encodeWord ::
  "(jsstring \<Rightarrow> jsstring) \<Rightarrow> nat \<times> jsstring \<Rightarrow> int list \<times> tokenizer \<Rightarrow> int list \<times> tokenizer" where
  "encodeWord uc iw st =
     (let index = fst iw; word = snd iw; tokens = fst st; this = snd st;
          step0 = \<lparr>step = index + 1, input = Str word, process = No_process, output = Null\<rparr>
      in case map_of (vocabulary this) (toLowerCase uc word) of
           Some tokenId \<Rightarrow>
             (tokens @ [tokenId],
              push (encodingSteps this)
                (step0\<lparr>process := Found_in_vocabulary word, output := Num tokenId\<rparr>) this)
         | None \<Rightarrow>
             (let asciiTokens = encodeToAscii this word in
              (tokens @ asciiTokens,
               push (encodingSteps this)
                 (step0\<lparr>process := Not_in_vocabulary word, output := Arr asciiTokens\<rparr>) this)))"

definition encodeText ::
  "(jsstring \<Rightarrow> jsstring) \<Rightarrow> jsstring \<Rightarrow> tokenizer \<Rightarrow> encode_result \<times> tokenizer" where
  "encodeText uc text this =
     (if text = [] then
        (let a = newArray this in
         (\<lparr>tokens = [], steps = fst a, originalText = None, tokenCount = None,
           characterCount = None\<rparr>, snd a))
      else
        (let a = newArray this;
             this1 = (snd a)\<lparr>encodingSteps := fst a\<rparr>;
             words = tokenizeWords text;
             st = fold (encodeWord uc) (enumerate 0 words) ([], this1);
             tokens = fst st; this2 = snd st
         in (\<lparr>tokens = tokens, steps = encodingSteps this2, originalText = Some text,
              tokenCount = Some (length tokens), characterCount = Some (length text)\<rparr>,
             this2)))"

section \<open>\<open>decodeTokens\<close>\<close>

record decode_result =
  "text" :: jsstring
  steps :: ref
  tokenCount :: "nat option"

definition UNK :: jsstring where
  "UNK = str ''<UNK>''"

text \<open>
  The callback of \<open>tokens.forEach\<close>; the loop state is the string \<open>decodedText\<close> and
  the heap.
\<close>

definition decodeToken :: "nat \<times> int \<Rightarrow> jsstring \<times> tokenizer \<Rightarrow> jsstring \<times> tokenizer" where
  "decodeToken it st =
     (let index = fst it; token = snd it; decodedText = fst st; this = snd st;
          step0 = \<lparr>step = index + 1, input = Num token, process = No_process, output = Str []\<rparr>
      in case map_of (reverseVocabulary this) token of
           Some txt \<Rightarrow>
             (decodedText @ txt,
              push (decodingSteps this)
                (step0\<lparr>process := Token_found token, output := Str txt\<rparr>) this)
         | None \<Rightarrow>
             if asciiOffset this \<le> token then
               (let asciiChar = fromCharCode (js_sub token (asciiOffset this)) in
                (decodedText @ asciiChar,
                 push (decodingSteps this)
                   (step0\<lparr>process := Token_decoded_from_ASCII token, output := Str asciiChar\<rparr>)
                   this))
             else
               (let unknownText = UNK in
                (decodedText @ unknownText,
                 push (decodingSteps this)
                   (step0\<lparr>process := Token_not_found token, output := Str unknownText\<rparr>)
                   this)))"

definition decodeTokens :: "int list \<Rightarrow> tokenizer \<Rightarrow> decode_result \<times> tokenizer" where
  "decodeTokens = (\<lambda>tokens this.
      if tokens = [] then
        (let a = newArray this in
         (\<lparr>text = [], steps = fst a, tokenCount = None\<rparr>, snd a))
      else
        (let a = newArray this;
             this1 = (snd a)\<lparr>decodingSteps := fst a\<rparr>;
             st = fold decodeToken (enumerate 0 tokens) ([], this1);
             decodedText = fst st; this2 = snd st
         in (\<lparr>text = decodedText, steps = decodingSteps this2,
              tokenCount = Some (length tokens)\<rparr>,
             this2)))"

section \<open>\<open>getVocabulary\<close>\<close>

text \<open>\<open>s.includes(t)\<close>: \<open>t\<close> occurs in \<open>s\<close> as a contiguous substring.\<close>

fun includes' :: "jsstring \<Rightarrow> jsstring \<Rightarrow> bool" where
  "includes' [] t = (t = [])"
| "includes' (c # cs) t = (take (length t) (c # cs) = t \<or> includes' cs t)"

text \<open>
  \<open>n.toString()\<close> for an integer \<open>n\<close>: its decimal digits (the form JavaScript
  prints for integers of magnitude below \<open>10 ^ 21\<close>).
\<close>

fun digits :: "nat \<Rightarrow> jsstring" where
  "digits n = (if n < 10 then [0x30 + of_nat n] else digits (n div 10) @ [0x30 + of_nat (n mod 10)])"

declare digits.simps [simp del]

definition toString :: "int \<Rightarrow> jsstring" where
  "toString n = (if n < 0 then 0x2D # digits (nat (- n)) else digits (nat n))"

datatype entry_type = Vocabulary_entry | Ascii_entry

record vocab_entry =
  character :: jsstring
  token :: int
  type :: entry_type

text \<open>The bodies of the two loops of \<open>getVocabulary\<close>; an empty \<open>searchTerm\<close> is falsy.\<close>

definition addVocabularyEntry ::
  "(jsstring \<Rightarrow> jsstring) \<Rightarrow> jsstring \<Rightarrow> jsstring \<times> int \<Rightarrow> vocab_entry list \<Rightarrow> vocab_entry list" where
  "addVocabularyEntry uc searchTerm wt vocab =
     (let word = fst wt; tokenId = snd wt in
      if searchTerm = [] \<or> includes' (toLowerCase uc word) (toLowerCase uc searchTerm)
      then vocab @ [\<lparr>character = word, token = tokenId, type = Vocabulary_entry\<rparr>]
      else vocab)"

definition addAsciiEntry ::
  "tokenizer \<Rightarrow> jsstring \<Rightarrow> int \<Rightarrow> vocab_entry list \<Rightarrow> vocab_entry list" where
  "addAsciiEntry this searchTerm i vocab =
     (let char = fromCharCode i; tokenId = i + asciiOffset this in
      if searchTerm = [] \<or> includes' char searchTerm \<or> includes' (toString tokenId) searchTerm
      then vocab @ [\<lparr>character = char, token = tokenId, type = Ascii_entry\<rparr>]
      else vocab)"

text \<open>
  \<open>Array.prototype.sort\<close> is stable; with the comparator \<open>a.token - b.token\<close> it is
  the stable sort by \<open>token\<close>.
\<close>

definition getVocabulary ::
  "(jsstring \<Rightarrow> jsstring) \<Rightarrow> jsstring \<Rightarrow> bool \<Rightarrow> tokenizer \<Rightarrow> vocab_entry list" where
  "getVocabulary uc searchTerm includeAscii this =
     (let vocab1 = fold (addVocabularyEntry uc searchTerm) (vocabulary this) [];
          vocab2 = (if includeAscii then fold (addAsciiEntry this searchTerm) [32..126] vocab1
                    else vocab1)
      in sort_key token vocab2)"

section \<open>\<open>getEncodingStats\<close>\<close>

text \<open>
  \<open>x.toFixed(1)\<close> for a double \<open>0 \<le> x < 10 ^ 21\<close>: with \<open>n\<close> the integer for which
  \<open>n / 10 - x\<close> is as close to zero as possible, the larger one if there are two, the
  digits of \<open>n\<close> with a point before the last one.
\<close>

definition toFixed1_tenths :: "rat \<Rightarrow> int" where
  "toFixed1_tenths x = \<lfloor>10 * x + 1 / 2\<rfloor>"

definition toFixed1 :: "rat \<Rightarrow> jsstring" where
  "toFixed1 x =
     (let n = toFixed1_tenths x in digits (nat (n div 10)) @ [0x2E] @ digits (nat (n mod 10)))"

text \<open>
  \<open>compressionRatio\<close> is either the number \<open>0\<close> or the string that \<open>toFixed(1)\<close>
  makes of the double \<open>(text.length - encoded.tokens.length) / text.length * 100\<close>. The
  two lengths are integers, and so is their difference.
\<close>

record stats_result =
  characterCount :: nat
  tokenCount :: nat
  compressionRatio :: js_value
  tokens :: "int list"

definition getEncodingStats ::
  "(jsstring \<Rightarrow> jsstring) \<Rightarrow> jsstring \<Rightarrow> tokenizer \<Rightarrow> stats_result \<times> tokenizer" where
  "getEncodingStats uc = (\<lambda>text this.
     let r = encodeText uc text this; encoded = fst r; this1 = snd r;
         compressionRatio =
           (if length text > 0
            then Str (toFixed1
                   (js_mul
                      (js_div (of_nat (length text) - of_nat (length (encode_result.tokens encoded)))
                         (of_nat (length text)))
                      100))
            else Num 0)
     in (\<lparr>characterCount = length text, tokenCount = length (encode_result.tokens encoded),
          compressionRatio = compressionRatio, tokens = encode_result.tokens encoded\<rparr>,
         this1))"

section \<open>Sequences of calls on one tokenizer\<close>

datatype call =
    EncodeText jsstring
  | DecodeTokens "int list"
  | GetEncodingStats jsstring
  | GetVocabulary jsstring bool

datatype reply =
    Encoded encode_result
  | Decoded decode_result
  | Stats stats_result
  | Listed "vocab_entry list"

fun invoke :: "(jsstring \<Rightarrow> jsstring) \<Rightarrow> call \<Rightarrow> tokenizer \<Rightarrow> reply \<times> tokenizer" where
  "invoke uc (EncodeText t) this = (let r = encodeText uc t this in (Encoded (fst r), snd r))"
| "invoke uc (DecodeTokens ts) this = (let r = decodeTokens ts this in (Decoded (fst r), snd r))"
| "invoke uc (GetEncodingStats t) this =
     (let r = getEncodingStats uc t this in (Stats (fst r), snd r))"
| "invoke uc (GetVocabulary t b) this = (Listed (getVocabulary uc t b this), this)"

text \<open>
  The tokenizer after the calls \<open>cs\<close>, in this order; \<open>afterCalls\<close> starts from the
  object the constructor returns.
\<close>

definition runCalls :: "(jsstring \<Rightarrow> jsstring) \<Rightarrow> call list \<Rightarrow> tokenizer \<Rightarrow> tokenizer" where
  "runCalls uc cs this = fold (\<lambda>c this. snd (invoke uc c this)) cs this"

definition afterCalls :: "(jsstring \<Rightarrow> jsstring) \<Rightarrow> call list \<Rightarrow> tokenizer" where
  "afterCalls uc cs = runCalls uc cs (TokenVisualizer uc)"

section \<open>Notions used to state the properties\<close>

text \<open>The units in the order in which \<open>initializeVocabulary\<close> gives them ids.\<close>

definition seeds :: "(jsstring \<Rightarrow> jsstring) \<Rightarrow> jsstring list" where
  "seeds uc = specialTokens @ map (toLowerCase uc) commonWords @ punctuation"

text \<open>
  The index, counted from \<open>n\<close>, of the last occurrence of a unit in a list of units.
\<close>

fun lastIndex :: "jsstring list \<Rightarrow> int \<Rightarrow> jsstring \<Rightarrow> int option" where
  "lastIndex [] n u = None"
| "lastIndex (w # ws) n u =
     (case lastIndex ws (n + 1) u of
        Some i \<Rightarrow> Some i
      | None \<Rightarrow> if w = u then Some n else None)"

text \<open>
  Unit splitting as the specification words it: a regular character is one that is
  neither whitespace nor punctuation; the plain space gives no unit; every other
  whitespace character and every punctuation character is a unit of its own; a maximal
  run of regular characters is one unit.
\<close>

definition isRegular :: "jschar \<Rightarrow> bool" where
  "isRegular c = (\<not> isWhitespace c \<and> \<not> isPunctuation c)"

function splitUnits :: "jsstring \<Rightarrow> jsstring list" where
  "splitUnits [] = []"
| "splitUnits (c # cs) =
     (if c = space then splitUnits cs
      else if isWhitespace c \<or> isPunctuation c then [c] # splitUnits cs
      else (c # takeWhile isRegular cs) # splitUnits (dropWhile isRegular cs))"
  by pat_completeness auto
termination
  by (relation "measure length") (auto simp: length_dropWhile_le less_Suc_eq_le)

text \<open>What one unit contributes to the token array and to the trace of \<open>encodeText\<close>.\<close>

definition wordTokens :: "(jsstring \<Rightarrow> jsstring) \<Rightarrow> tokenizer \<Rightarrow> jsstring \<Rightarrow> int list" where
  "wordTokens uc this word =
     (case map_of (vocabulary this) (toLowerCase uc word) of
        Some tokenId \<Rightarrow> [tokenId]
      | None \<Rightarrow> encodeToAscii this word)"

definition wordStep :: "(jsstring \<Rightarrow> jsstring) \<Rightarrow> tokenizer \<Rightarrow> nat \<times> jsstring \<Rightarrow> trace_step" where
  "wordStep uc this iw =
     (case map_of (vocabulary this) (toLowerCase uc (snd iw)) of
        Some tokenId \<Rightarrow>
          \<lparr>step = fst iw + 1, input = Str (snd iw), process = Found_in_vocabulary (snd iw),
           output = Num tokenId\<rparr>
      | None \<Rightarrow>
          \<lparr>step = fst iw + 1, input = Str (snd iw), process = Not_in_vocabulary (snd iw),
           output = Arr (encodeToAscii this (snd iw))\<rparr>)"

text \<open>What one token id contributes to the text and to the trace of \<open>decodeTokens\<close>.\<close>

definition tokenText :: "tokenizer \<Rightarrow> int \<Rightarrow> jsstring" where
  "tokenText this t =
     (case map_of (reverseVocabulary this) t of
        Some txt \<Rightarrow> txt
      | None \<Rightarrow> if asciiOffset this \<le> t then fromCharCode (js_sub t (asciiOffset this)) else UNK)"

definition tokenStep :: "tokenizer \<Rightarrow> nat \<times> int \<Rightarrow> trace_step" where
  "tokenStep this it =
     \<lparr>step = fst it + 1, input = Num (snd it),
      process =
        (case map_of (reverseVocabulary this) (snd it) of
           Some txt \<Rightarrow> Token_found (snd it)
         | None \<Rightarrow> if asciiOffset this \<le> snd it then Token_decoded_from_ASCII (snd it)
                   else Token_not_found (snd it)),
      output = Str (tokenText this (snd it))\<rparr>"

text \<open>
  What a caller can see of a reply: its fields, with the trace array read through the
  \<open>steps\<close> reference in the heap of the moment (the reference itself is an object
  identity and is left out).
\<close>

fun traceOf :: "tokenizer \<Rightarrow> reply \<Rightarrow> trace_step list" where
  "traceOf this (Encoded r) = arrays this ! encode_result.steps r"
| "traceOf this (Decoded r) = arrays this ! decode_result.steps r"
| "traceOf this (Stats r) = []"
| "traceOf this (Listed r) = []"

fun fieldsOf :: "reply \<Rightarrow> reply" where
  "fieldsOf (Encoded r) = Encoded (r\<lparr>encode_result.steps := 0\<rparr>)"
| "fieldsOf (Decoded r) = Decoded (r\<lparr>decode_result.steps := 0\<rparr>)"
| "fieldsOf (Stats r) = Stats r"
| "fieldsOf (Listed r) = Listed r"

definition observe :: "reply \<times> tokenizer \<Rightarrow> reply \<times> trace_step list" where
  "observe rt = (fieldsOf (fst rt), traceOf (snd rt) (fst rt))"

text \<open>The entry that \<open>getVocabulary\<close> synthesizes for the character code \<open>i\<close>.\<close>

definition asciiEntry :: "int \<Rightarrow> vocab_entry" where
  "asciiEntry i = \<lparr>character = fromCharCode i, token = i + 2000, type = Ascii_entry\<rparr>"

definition vocabularyEntry :: "jsstring \<times> int \<Rightarrow> vocab_entry" where
  "vocabularyEntry wt = \<lparr>character = fst wt, token = snd wt, type = Vocabulary_entry\<rparr>"

text \<open>
  The compression ratio in percent for \<open>c\<close> characters and \<open>k\<close> tokens: the exact
  value of the specification's formula, and the double that the code computes for it
  (a division, then a multiplication by 100).
\<close>

definition exactPercent :: "nat \<Rightarrow> nat \<Rightarrow> rat" where
  "exactPercent c k = (of_nat c - of_nat k) / of_nat c * 100"

definition doublePercent :: "nat \<Rightarrow> nat \<Rightarrow> rat" where
  "doublePercent c k = js_mul (js_div (of_nat c - of_nat k) (of_nat c)) 100"

section \<open>The loops in closed form\<close>

lemma newArray_simps:
  "fst (newArray this) = length (arrays this)"
  "snd (newArray this) = this\<lparr>arrays := arrays this @ [[]]\<rparr>"
  by (simp_all add: newArray_def)

lemma push_fields:
  "vocabulary (push a x this) = vocabulary this"
  "reverseVocabulary (push a x this) = reverseVocabulary this"
  "asciiOffset (push a x this) = asciiOffset this"
  "encodingSteps (push a x this) = encodingSteps this"
  "decodingSteps (push a x this) = decodingSteps this"
  "arrays (push a x this) = (arrays this)[a := arrays this ! a @ [x]]"
  by (simp_all add: push_def)

lemma wordTokens_arrays: "wordTokens uc (this\<lparr>arrays := h\<rparr>) w = wordTokens uc this w"
  by (simp add: wordTokens_def encodeToAscii_def split: option.split)

lemma wordStep_arrays: "wordStep uc (this\<lparr>arrays := h\<rparr>) iw = wordStep uc this iw"
  by (simp add: wordStep_def encodeToAscii_def split: option.split)

lemma tokenText_arrays: "tokenText (this\<lparr>arrays := h\<rparr>) t = tokenText this t"
  by (simp add: tokenText_def split: option.split)

lemma tokenStep_arrays: "tokenStep (this\<lparr>arrays := h\<rparr>) it = tokenStep this it"
  by (simp add: tokenStep_def tokenText_def split: option.split)

lemma encodeWord_eq:
  "encodeWord uc iw (toks, this) =
     (toks @ wordTokens uc this (snd iw),
      this\<lparr>arrays := (arrays this)[encodingSteps this :=
                arrays this ! encodingSteps this @ [wordStep uc this iw]]\<rparr>)"
  by (simp add: encodeWord_def wordTokens_def wordStep_def push_def Let_def
           split: option.split)

lemma decodeToken_eq:
  "decodeToken it (txt, this) =
     (txt @ tokenText this (snd it),
      this\<lparr>arrays := (arrays this)[decodingSteps this :=
                arrays this ! decodingSteps this @ [tokenStep this it]]\<rparr>)"
  by (simp add: decodeToken_def tokenText_def tokenStep_def push_def Let_def
           split: option.split)

lemma fold_encodeWord:
  "encodingSteps this < length (arrays this) \<Longrightarrow>
   fold (encodeWord uc) (enumerate n ws) (toks, this) =
     (toks @ concat (map (wordTokens uc this) ws),
      this\<lparr>arrays := (arrays this)[encodingSteps this :=
                arrays this ! encodingSteps this @ map (wordStep uc this) (enumerate n ws)]\<rparr>)"
proof (induction ws arbitrary: n toks this)
  case Nil
  then show ?case by simp
next
  case (Cons w ws)
  let ?this1 = "this\<lparr>arrays := (arrays this)[encodingSteps this :=
                arrays this ! encodingSteps this @ [wordStep uc this (n, w)]]\<rparr>"
  have valid: "encodingSteps ?this1 < length (arrays ?this1)"
    using Cons.prems by simp
  show ?case
    using Cons.IH [OF valid, of "Suc n" "toks @ wordTokens uc this w"] Cons.prems
    by (simp add: encodeWord_eq wordTokens_arrays wordStep_arrays)
qed

lemma fold_decodeToken:
  "decodingSteps this < length (arrays this) \<Longrightarrow>
   fold decodeToken (enumerate n ts) (dt, this) =
     (dt @ concat (map (tokenText this) ts),
      this\<lparr>arrays := (arrays this)[decodingSteps this :=
                arrays this ! decodingSteps this @ map (tokenStep this) (enumerate n ts)]\<rparr>)"
proof (induction ts arbitrary: n dt this)
  case Nil
  then show ?case by simp
next
  case (Cons t ts)
  let ?this1 = "this\<lparr>arrays := (arrays this)[decodingSteps this :=
                arrays this ! decodingSteps this @ [tokenStep this (n, t)]]\<rparr>"
  have valid: "decodingSteps ?this1 < length (arrays ?this1)"
    using Cons.prems by simp
  show ?case
    using Cons.IH [OF valid, of "Suc n" "dt @ tokenText this t"] Cons.prems
    by (simp add: decodeToken_eq tokenText_arrays tokenStep_arrays)
qed

text \<open>The whole of a call, in closed form.\<close>

lemma encodeText_eq:
  "encodeText uc t this =
     (if t = [] then
        (\<lparr>encode_result.tokens = [], steps = length (arrays this), originalText = None,
          tokenCount = None, characterCount = None\<rparr>,
         this\<lparr>arrays := arrays this @ [[]]\<rparr>)
      else
        (\<lparr>encode_result.tokens = concat (map (wordTokens uc this) (tokenizeWords t)),
          steps = length (arrays this), originalText = Some t,
          tokenCount = Some (length (concat (map (wordTokens uc this) (tokenizeWords t)))),
          characterCount = Some (length t)\<rparr>,
         this\<lparr>encodingSteps := length (arrays this),
              arrays := arrays this @ [map (wordStep uc this) (enumerate 0 (tokenizeWords t))]\<rparr>))"
proof (cases "t = []")
  case True
  then show ?thesis by (simp add: encodeText_def newArray_simps)
next
  case False
  let ?this1 = "this\<lparr>arrays := arrays this @ [[]], encodingSteps := length (arrays this)\<rparr>"
  have valid: "encodingSteps ?this1 < length (arrays ?this1)" by simp
  have wt: "wordTokens uc ?this1 = wordTokens uc this"
    by (simp add: fun_eq_iff wordTokens_def encodeToAscii_def split: option.split)
  have ws: "wordStep uc ?this1 = wordStep uc this"
    by (simp add: fun_eq_iff wordStep_def encodeToAscii_def split: option.split)
  show ?thesis
    using False fold_encodeWord [OF valid, of uc 0 "tokenizeWords t" "[]"]
    by (simp add: encodeText_def newArray_simps Let_def wt ws)
qed

lemma decodeTokens_eq:
  "decodeTokens ts this =
     (if ts = [] then
        (\<lparr>text = [], steps = length (arrays this), tokenCount = None\<rparr>,
         this\<lparr>arrays := arrays this @ [[]]\<rparr>)
      else
        (\<lparr>text = concat (map (tokenText this) ts), steps = length (arrays this),
          tokenCount = Some (length ts)\<rparr>,
         this\<lparr>decodingSteps := length (arrays this),
              arrays := arrays this @ [map (tokenStep this) (enumerate 0 ts)]\<rparr>))"
proof (cases "ts = []")
  case True
  then show ?thesis by (simp add: decodeTokens_def newArray_simps)
next
  case False
  let ?this1 = "this\<lparr>arrays := arrays this @ [[]], decodingSteps := length (arrays this)\<rparr>"
  have valid: "decodingSteps ?this1 < length (arrays ?this1)" by simp
  have tt: "tokenText ?this1 = tokenText this"
    by (simp add: fun_eq_iff tokenText_def split: option.split)
  have ts: "tokenStep ?this1 = tokenStep this"
    by (simp add: fun_eq_iff tokenStep_def tokenText_def split: option.split)
  show ?thesis
    using False fold_decodeToken [OF valid, of 0 ts "[]"]
    by (simp add: decodeTokens_def newArray_simps Let_def tt ts)
qed

section \<open>Unit splitting\<close>

lemma isWhitespace_space: "isWhitespace space"
  by (simp add: isWhitespace_def space_def)

lemma isRegular_not_space: "isRegular c \<Longrightarrow> c \<noteq> space"
  using isWhitespace_space by (auto simp: isRegular_def)

lemma takeWhile_stop: "rest = [] \<or> \<not> P (hd rest) \<Longrightarrow> takeWhile P rest = []"
  by (cases rest) auto

lemma dropWhile_stop: "rest = [] \<or> \<not> P (hd rest) \<Longrightarrow> dropWhile P rest = rest"
  by (cases rest) auto

lemma splitUnits_run:
  assumes "list_all isRegular cur" "cur \<noteq> []" "rest = [] \<or> \<not> isRegular (hd rest)"
  shows "splitUnits (cur @ rest) = cur # splitUnits rest"
proof -
  obtain x xs where cur: "cur = x # xs" using assms(2) by (cases cur) auto
  have x: "isRegular x" and xs: "\<forall>c\<in>set xs. isRegular c"
    using assms(1) cur by (auto simp: list_all_iff)
  have tw: "takeWhile isRegular (xs @ rest) = xs"
    using xs assms(3) by (simp add: takeWhile_stop)
  have dw: "dropWhile isRegular (xs @ rest) = rest"
    using xs assms(3) by (simp add: dropWhile_stop)
  show ?thesis
    using x isRegular_not_space [OF x] tw dw by (simp add: cur isRegular_def)
qed

lemma splitUnits_delimiter:
  "\<not> isRegular c \<Longrightarrow> splitUnits (c # cs) = (if c = space then [] else [[c]]) @ splitUnits cs"
  by (simp add: isRegular_def)

lemma tokenize_loop:
  "list_all isRegular cur \<Longrightarrow>
   (let st = fold tokenizeChar t (toks, cur) in
    if snd st \<noteq> [] then fst st @ [snd st] else fst st)
   = toks @ splitUnits (cur @ t)"
proof (induction t arbitrary: toks cur)
  case Nil
  show ?case
  proof (cases "cur = []")
    case True
    then show ?thesis by simp
  next
    case False
    then show ?thesis using splitUnits_run [OF Nil False, of "[]"] by simp
  qed
next
  case (Cons c t)
  show ?case
  proof (cases "isRegular c")
    case True
    then have step: "tokenizeChar c (toks, cur) = (toks, cur @ [c])"
      by (simp add: tokenizeChar_def isRegular_def)
    have "list_all isRegular (cur @ [c])" using Cons.prems True by simp
    from Cons.IH [OF this, of toks] show ?thesis by (simp add: step)
  next
    case False
    have step: "tokenizeChar c (toks, cur) =
        ((if cur \<noteq> [] then toks @ [cur] else toks) @ (if c = space then [] else [[c]]), [])"
      using False isWhitespace_space
      by (auto simp: tokenizeChar_def isRegular_def Let_def)
    have split: "splitUnits (cur @ c # t) =
        (if cur \<noteq> [] then [cur] else []) @ (if c = space then [] else [[c]]) @ splitUnits t"
    proof (cases "cur = []")
      case True
      then show ?thesis using splitUnits_delimiter [OF False] by simp
    next
      case nonempty: False
      have "splitUnits (cur @ c # t) = cur # splitUnits (c # t)"
        using splitUnits_run [OF Cons.prems nonempty, of "c # t"] False by simp
      then show ?thesis using nonempty splitUnits_delimiter [OF False] by simp
    qed
    have "list_all isRegular []" by simp
    from Cons.IH [OF this] show ?thesis by (simp add: step split)
  qed
qed

lemma tokenizeWords_eq: "tokenizeWords t = splitUnits t"
  using tokenize_loop [of "[]" t "[]"] by (simp add: tokenizeWords_def Let_def)

lemma splitUnits_concat: "concat (splitUnits t) = filter (\<lambda>c. c \<noteq> space) t"
proof (induction t rule: splitUnits.induct)
  case 1
  show ?case by simp
next
  case (2 c cs)
  show ?case
  proof (cases "c = space")
    case True
    then show ?thesis using 2 by simp
  next
    case notspace: False
    show ?thesis
    proof (cases "isWhitespace c \<or> isPunctuation c")
      case True
      then show ?thesis using 2 notspace by simp
    next
      case False
      have reg: "filter (\<lambda>c. c \<noteq> space) (takeWhile isRegular cs) = takeWhile isRegular cs"
        by (rule filter_True) (auto dest!: set_takeWhileD simp: isRegular_def isWhitespace_def space_def)
      have "filter (\<lambda>c. c \<noteq> space) cs
            = filter (\<lambda>c. c \<noteq> space) (takeWhile isRegular cs @ dropWhile isRegular cs)"
        by simp
      also have "\<dots> = takeWhile isRegular cs @ filter (\<lambda>c. c \<noteq> space) (dropWhile isRegular cs)"
        unfolding filter_append reg ..
      finally show ?thesis using 2 notspace False by simp
    qed
  qed
qed

lemma splitUnits_shape:
  "u \<in> set (splitUnits t) \<Longrightarrow>
     u \<noteq> [] \<and> (list_all isRegular u \<or> (\<exists>c. u = [c] \<and> \<not> isRegular c \<and> c \<noteq> space))"
proof (induction t rule: splitUnits.induct)
  case 1
  then show ?case by simp
next
  case (2 c cs)
  show ?case
  proof (cases "c = space")
    case True
    then show ?thesis using 2 by simp
  next
    case notspace: False
    show ?thesis
    proof (cases "isWhitespace c \<or> isPunctuation c")
      case True
      then show ?thesis using 2 notspace by (auto simp: isRegular_def)
    next
      case False
      have "list_all isRegular (c # takeWhile isRegular cs)"
        using False by (auto simp: list_all_iff isRegular_def dest!: set_takeWhileD)
      then show ?thesis using 2 notspace False by auto
    qed
  qed
qed

section \<open>The vocabulary table\<close>

lemma map_set_fresh: "k \<notin> fst ` set m \<Longrightarrow> map_set k v m = m @ [(k, v)]"
  by (induction m) auto

lemma map_of_map_set: "map_of (map_set k v m) = (map_of m)(k \<mapsto> v)"
  by (induction m) (auto simp: fun_eq_iff)

lemma addEntry_fields:
  "vocabulary (fst (addEntry w st)) = map_set w (snd st) (vocabulary (fst st))"
  "reverseVocabulary (fst (addEntry w st)) = map_set (snd st) w (reverseVocabulary (fst st))"
  "asciiOffset (fst (addEntry w st)) = asciiOffset (fst st)"
  "encodingSteps (fst (addEntry w st)) = encodingSteps (fst st)"
  "decodingSteps (fst (addEntry w st)) = decodingSteps (fst st)"
  "arrays (fst (addEntry w st)) = arrays (fst st)"
  "snd (addEntry w st) = snd st + 1"
  by (simp_all add: addEntry_def Let_def)

lemma fold_addEntry_frame:
  "asciiOffset (fst (fold addEntry ws st)) = asciiOffset (fst st)
   \<and> encodingSteps (fst (fold addEntry ws st)) = encodingSteps (fst st)
   \<and> decodingSteps (fst (fold addEntry ws st)) = decodingSteps (fst st)
   \<and> arrays (fst (fold addEntry ws st)) = arrays (fst st)
   \<and> snd (fold addEntry ws st) = snd st + int (length ws)"
  by (induction ws rule: rev_induct) (simp_all add: addEntry_fields)

lemma fold_addEntry_reverse:
  assumes "reverseVocabulary (fst st) = []" "snd st = 0"
  shows "reverseVocabulary (fst (fold addEntry ws st)) = zip (map int [0..<length ws]) ws"
proof (induction ws rule: rev_induct)
  case Nil
  then show ?case using assms by simp
next
  case (snoc w ws)
  have n: "snd (fold addEntry ws st) = int (length ws)"
    using fold_addEntry_frame [of ws st] assms by simp
  have fresh: "int (length ws) \<notin> fst ` set (zip (map int [0..<length ws]) ws)"
    by (auto dest!: set_zip_leftD)
  show ?case
    using snoc n fresh by (simp add: addEntry_fields map_set_fresh)
qed

text \<open>
  The forward map sends a unit to the index of its last occurrence among the units added.
\<close>

lemma fold_addEntry_forward:
  assumes "vocabulary (fst st) = []" "snd st = 0"
  shows "map_of (vocabulary (fst (fold addEntry ws st))) u = Some i
         \<longleftrightarrow> (\<exists>j<length ws. i = int j \<and> ws ! j = u \<and> (\<forall>k. j < k \<and> k < length ws \<longrightarrow> ws ! k \<noteq> u))"
proof (induction ws arbitrary: i rule: rev_induct)
  case Nil
  then show ?case using assms by simp
next
  case (snoc w ws)
  have n: "snd (fold addEntry ws st) = int (length ws)"
    using fold_addEntry_frame [of ws st] assms by simp
  have upd: "map_of (vocabulary (fst (fold addEntry (ws @ [w]) st)))
             = (map_of (vocabulary (fst (fold addEntry ws st))))(w \<mapsto> int (length ws))"
    using n by (simp add: addEntry_fields map_of_map_set)
  show ?case
  proof (cases "u = w")
    case True
    have "(\<exists>j<length (ws @ [w]). i = int j \<and> (ws @ [w]) ! j = u
             \<and> (\<forall>k. j < k \<and> k < length (ws @ [w]) \<longrightarrow> (ws @ [w]) ! k \<noteq> u))
          \<longleftrightarrow> i = int (length ws)"
    proof
      assume "\<exists>j<length (ws @ [w]). i = int j \<and> (ws @ [w]) ! j = u
             \<and> (\<forall>k. j < k \<and> k < length (ws @ [w]) \<longrightarrow> (ws @ [w]) ! k \<noteq> u)"
      then obtain j where j: "j < Suc (length ws)" "i = int j"
        and later: "\<forall>k. j < k \<and> k < Suc (length ws) \<longrightarrow> (ws @ [w]) ! k \<noteq> u"
        by auto
      have "j = length ws"
      proof (rule ccontr)
        assume "j \<noteq> length ws"
        then have "j < length ws" using j by simp
        then have "(ws @ [w]) ! length ws \<noteq> u"
          using later [rule_format, of "length ws"] by simp
        then show False using True by simp
      qed
      then show "i = int (length ws)" using j by simp
    next
      assume "i = int (length ws)"
      then show "\<exists>j<length (ws @ [w]). i = int j \<and> (ws @ [w]) ! j = u
             \<and> (\<forall>k. j < k \<and> k < length (ws @ [w]) \<longrightarrow> (ws @ [w]) ! k \<noteq> u)"
        using True by (intro exI [of _ "length ws"]) auto
    qed
    then show ?thesis using True upd by auto
  next
    case False
    have "(\<exists>j<length (ws @ [w]). i = int j \<and> (ws @ [w]) ! j = u
             \<and> (\<forall>k. j < k \<and> k < length (ws @ [w]) \<longrightarrow> (ws @ [w]) ! k \<noteq> u))
          \<longleftrightarrow> (\<exists>j<length ws. i = int j \<and> ws ! j = u
             \<and> (\<forall>k. j < k \<and> k < length ws \<longrightarrow> ws ! k \<noteq> u))"
      (is "?L \<longleftrightarrow> ?R")
    proof
      assume ?L
      then obtain j where j: "j < Suc (length ws)" "i = int j" "(ws @ [w]) ! j = u"
        and later: "\<forall>k. j < k \<and> k < Suc (length ws) \<longrightarrow> (ws @ [w]) ! k \<noteq> u"
        by auto
      have jlt: "j < length ws"
        using j False by (cases "j = length ws") auto
      have "\<forall>k. j < k \<and> k < length ws \<longrightarrow> ws ! k \<noteq> u"
      proof (intro allI impI)
        fix k assume k: "j < k \<and> k < length ws"
        then have "(ws @ [w]) ! k \<noteq> u" using later by simp
        then show "ws ! k \<noteq> u" using k by (simp add: nth_append)
      qed
      then show ?R using j jlt by (auto simp: nth_append)
    next
      assume ?R
      then obtain j where j: "j < length ws" "i = int j" "ws ! j = u"
        and later: "\<forall>k. j < k \<and> k < length ws \<longrightarrow> ws ! k \<noteq> u"
        by auto
      have "\<forall>k. j < k \<and> k < length (ws @ [w]) \<longrightarrow> (ws @ [w]) ! k \<noteq> u"
      proof (intro allI impI)
        fix k assume k: "j < k \<and> k < length (ws @ [w])"
        show "(ws @ [w]) ! k \<noteq> u"
        proof (cases "k = length ws")
          case True
          then show ?thesis using False by simp
        next
          case False
          then have "k < length ws" using k by simp
          then show ?thesis using later k by (simp add: nth_append)
        qed
      qed
      then show ?L using j by (intro exI [of _ j]) (simp add: nth_append)
    qed
    then show ?thesis using False upd snoc.IH by simp
  qed
qed

lemma initializeVocabulary_fold:
  "initializeVocabulary uc this =
     (fst (fold addEntry (seeds uc) (this\<lparr>vocabulary := [], reverseVocabulary := []\<rparr>, 0)))
       \<lparr>asciiOffset := 2000\<rparr>"
  by (simp add: initializeVocabulary_def seeds_def Let_def fold_map comp_def)

subsection \<open>The vocabulary of every reachable tokenizer\<close>

lemma TokenVisualizer_fields:
  "vocabulary (TokenVisualizer uc) = vocabulary (fst (fold addEntry (seeds uc) (blank, 0)))"
  "reverseVocabulary (TokenVisualizer uc)
     = reverseVocabulary (fst (fold addEntry (seeds uc) (blank, 0)))"
  "asciiOffset (TokenVisualizer uc) = 2000"
  "encodingSteps (TokenVisualizer uc) = 0"
  "decodingSteps (TokenVisualizer uc) = 1"
  "arrays (TokenVisualizer uc) = [[], []]"
proof -
  have b: "blank\<lparr>vocabulary := [], reverseVocabulary := []\<rparr> = blank"
    by (simp add: blank_def)
  have fr: "arrays (fst (fold addEntry (seeds uc) (blank, 0))) = []"
    using fold_addEntry_frame [of "seeds uc" "(blank, 0)"] by (simp add: blank_def)
  show "vocabulary (TokenVisualizer uc) = vocabulary (fst (fold addEntry (seeds uc) (blank, 0)))"
    "reverseVocabulary (TokenVisualizer uc)
       = reverseVocabulary (fst (fold addEntry (seeds uc) (blank, 0)))"
    "asciiOffset (TokenVisualizer uc) = 2000"
    "encodingSteps (TokenVisualizer uc) = 0"
    "decodingSteps (TokenVisualizer uc) = 1"
    "arrays (TokenVisualizer uc) = [[], []]"
    by (simp_all add: TokenVisualizer_def initializeVocabulary_fold newArray_simps Let_def b fr)
qed

lemma invoke_fields:
  "vocabulary (snd (invoke uc c this)) = vocabulary this"
  "reverseVocabulary (snd (invoke uc c this)) = reverseVocabulary this"
  "asciiOffset (snd (invoke uc c this)) = asciiOffset this"
  by (cases c; simp add: Let_def getEncodingStats_def encodeText_eq decodeTokens_eq)+

lemma runCalls_fields:
  "vocabulary (runCalls uc cs this) = vocabulary this
   \<and> reverseVocabulary (runCalls uc cs this) = reverseVocabulary this
   \<and> asciiOffset (runCalls uc cs this) = asciiOffset this"
  unfolding runCalls_def
  by (induction cs arbitrary: this) (simp_all add: invoke_fields)

lemma afterCalls_asciiOffset: "asciiOffset (afterCalls uc cs) = 2000"
  using runCalls_fields [of uc cs "TokenVisualizer uc"]
  by (simp add: afterCalls_def TokenVisualizer_fields)

lemma afterCalls_reverseVocabulary:
  "reverseVocabulary (afterCalls uc cs) = zip (map int [0..<length (seeds uc)]) (seeds uc)"
  using runCalls_fields [of uc cs "TokenVisualizer uc"]
    fold_addEntry_reverse [of "(blank, 0)" "seeds uc"]
  by (simp add: afterCalls_def TokenVisualizer_fields blank_def)

lemma afterCalls_vocabulary:
  "map_of (vocabulary (afterCalls uc cs)) u = Some i
   \<longleftrightarrow> (\<exists>j<length (seeds uc). i = int j \<and> seeds uc ! j = u
         \<and> (\<forall>k. j < k \<and> k < length (seeds uc) \<longrightarrow> seeds uc ! k \<noteq> u))"
  using runCalls_fields [of uc cs "TokenVisualizer uc"]
    fold_addEntry_forward [of "(blank, 0)" "seeds uc" u i]
  by (simp add: afterCalls_def TokenVisualizer_fields blank_def)

lemma map_of_zip_index:
  "map_of (zip (map int [0..<length ws]) ws) i
     = (if 0 \<le> i \<and> i < int (length ws) then Some (ws ! nat i) else None)"
proof (induction ws arbitrary: i rule: rev_induct)
  case Nil
  then show ?case by simp
next
  case (snoc w ws)
  have "map_of (zip (map int [0..<length (ws @ [w])]) (ws @ [w])) i
        = (map_of [(int (length ws), w)] ++ map_of (zip (map int [0..<length ws]) ws)) i"
    by simp
  then show ?case
    using snoc [of i] by (auto simp: map_add_def nth_append split: option.split)
qed

lemma afterCalls_reverse_lookup:
  "map_of (reverseVocabulary (afterCalls uc cs)) i
     = (if 0 \<le> i \<and> i < int (length (seeds uc)) then Some (seeds uc ! nat i) else None)"
  by (simp only: afterCalls_reverseVocabulary map_of_zip_index)

lemma length_seeds: "length (seeds uc) = 208"
  by (simp add: seeds_def specialTokens_def commonWords_def punctuation_def
        punctuationClass_def str_def)

lemma seeds_plain: "seeds uc = specialTokens @ commonWords @ punctuation"
  by (simp add: seeds_def commonWords_def str_def toLowerCase_def asciiLower_def)

lemma reverse_lookup_cases:
  "map_of (reverseVocabulary (afterCalls uc cs)) t
     = (if 0 \<le> t \<and> t < 208 then Some (seeds uc ! nat t) else None)"
  by (simp add: afterCalls_reverse_lookup length_seeds)

subsection \<open>Decoding one token id\<close>

lemma tokenText_unknown:
  "map_of (reverseVocabulary this) t = None \<Longrightarrow> t < asciiOffset this \<Longrightarrow> tokenText this t = UNK"
  by (simp add: tokenText_def)

lemma decode_trace:
  "arrays (snd (decodeTokens ts this)) ! decode_result.steps (fst (decodeTokens ts this))
     = map (tokenStep this) (enumerate 0 ts)"
  by (simp add: decodeTokens_eq nth_append)

lemma decode_text:
  "text (fst (decodeTokens ts this)) = concat (map (tokenText this) ts)"
  by (simp add: decodeTokens_eq)

lemma js_nearest_exact: "n < 2 ^ 53 \<Longrightarrow> js_nearest n = n"
  by (simp add: js_nearest_def)

lemma tokenText_ascii:
  "2000 \<le> t \<Longrightarrow> tokenText (afterCalls uc cs) t = [word_of_int (js_sub t 2000)]"
  by (simp add: tokenText_def reverse_lookup_cases afterCalls_asciiOffset fromCharCode_def)

text \<open>
  The id 999999 is not below the offset: it is decoded as the character of code
  \<open>(999999 - 2000) mod 65536 = 14959\<close>, not as unknown.
\<close>

lemma decodeTokens_999999: "text (fst (decodeTokens [999999] (afterCalls uc cs))) = [14959]"
  by (simp add: decode_text tokenText_ascii js_sub_def js_nearest_exact)

lemma bitlen_2_60: "bitlen 1152921504606844976 = 60"
  by code_simp

lemma js_sub_2_60: "js_sub 1152921504606846976 2000 = 1152921504606844928"
  by (simp add: js_sub_def js_nearest_def bitlen_2_60 Let_def)

subsection \<open>Lookups in the table\<close>

lemma forward_reverse:
  "map_of (vocabulary (afterCalls uc cs)) u = Some i
   \<Longrightarrow> map_of (reverseVocabulary (afterCalls uc cs')) i = Some u"
  by (auto simp: afterCalls_vocabulary afterCalls_reverse_lookup)

lemma seeds_last: "seeds uc ! 207 = [0x20]"
  by (simp add: seeds_plain nth_append specialTokens_def commonWords_def punctuation_def
        punctuationClass_def str_def)

lemma vocabulary_space: "map_of (vocabulary (afterCalls uc cs)) [0x20] = Some 207"
proof -
  have "\<exists>j<length (seeds uc). (207::int) = int j \<and> seeds uc ! j = [0x20]
         \<and> (\<forall>k. j < k \<and> k < length (seeds uc) \<longrightarrow> seeds uc ! k \<noteq> [0x20])"
    by (rule exI [of _ 207]) (auto simp: length_seeds seeds_last)
  then show ?thesis by (simp only: afterCalls_vocabulary)
qed

lemma fold_addEntry_forward_rev:
  assumes "vocabulary (fst st) = []" "snd st = 0"
  shows "map_of (vocabulary (fst (fold addEntry ws st)))
         = map_of (rev (zip ws (map int [0..<length ws])))"
proof (induction ws rule: rev_induct)
  case Nil
  then show ?case using assms by simp
next
  case (snoc w ws)
  have n: "snd (fold addEntry ws st) = int (length ws)"
    using fold_addEntry_frame [of ws st] assms by simp
  show ?case
    using snoc n by (simp add: addEntry_fields map_of_map_set fun_eq_iff)
qed

lemma map_of_rev_zip_lastIndex:
  "map_of (rev (zip ws (map (\<lambda>k. m + int k) [0..<length ws]))) u = lastIndex ws m u"
proof (induction ws arbitrary: m)
  case Nil
  then show ?case by simp
next
  case (Cons w ws)
  have "map (\<lambda>k. m + int k) [0..<length (w # ws)]
        = m # map (\<lambda>k. (m + 1) + int k) [0..<length ws]"
    by (simp add: upt_conv_Cons map_Suc_upt [symmetric] del: upt_Suc)
  then show ?case
    using Cons [of "m + 1"] by (simp add: map_add_def split: option.split)
qed

lemma lookup_lastIndex:
  "map_of (vocabulary (afterCalls uc cs)) u = lastIndex (seeds uc) 0 u"
proof -
  have "map_of (vocabulary (afterCalls uc cs))
        = map_of (rev (zip (seeds uc) (map int [0..<length (seeds uc)])))"
    using runCalls_fields [of uc cs "TokenVisualizer uc"]
      fold_addEntry_forward_rev [of "(blank, 0)" "seeds uc"]
    by (simp add: afterCalls_def TokenVisualizer_fields blank_def)
  then show ?thesis
    using map_of_rev_zip_lastIndex [of "seeds uc" 0 u] by simp
qed

lemma lookup_the: "map_of (vocabulary (afterCalls uc cs)) (str ''the'') = Some 10"
  by (simp add: lookup_lastIndex seeds_plain specialTokens_def commonWords_def
        punctuation_def punctuationClass_def str_def)

lemma toLowerCase_space: "toLowerCase uc [0x20] = [0x20]"
  by (simp add: toLowerCase_def asciiLower_def)

lemma uint_jschar_exact: "js_sub (uint (c :: jschar) + 2000) 2000 = uint c"
proof -
  have "uint c < 2 ^ 16" using uint_bounded [of c] by simp
  then have "uint c < 2 ^ 53" by simp
  then show ?thesis by (simp add: js_sub_def js_nearest_exact)
qed

lemma lookup_x: "map_of (vocabulary (afterCalls uc cs)) (toLowerCase uc (str ''x'')) = None"
  by (simp add: lookup_lastIndex seeds_plain specialTokens_def commonWords_def
        punctuation_def punctuationClass_def str_def toLowerCase_def asciiLower_def)

lemma reverse_keys:
  "map fst (reverseVocabulary (afterCalls uc cs)) = map int [0..<length (seeds uc)]"
  by (simp add: afterCalls_reverseVocabulary)

lemma reverse_values:
  "map snd (reverseVocabulary (afterCalls uc cs)) = seeds uc"
  by (simp add: afterCalls_reverseVocabulary)

lemma seeds_57: "seeds uc ! 57 = str ''which''"
  by (simp add: seeds_plain nth_append specialTokens_def commonWords_def str_def)

lemma seeds_119: "seeds uc ! 119 = str ''which''"
  by (simp add: seeds_plain nth_append specialTokens_def commonWords_def str_def)

lemma lookup_which: "map_of (vocabulary (afterCalls uc cs)) (str ''which'') = Some 161"
  by (simp add: lookup_lastIndex seeds_plain specialTokens_def commonWords_def
        punctuation_def punctuationClass_def str_def)

subsection \<open>The size of the forward map and the full listing\<close>

lemma map_set_keys:
  "map fst (map_set k v m) = (if k \<in> fst ` set m then map fst m else map fst m @ [k])"
  by (induction m) auto

lemma fold_addEntry_keys:
  assumes "vocabulary (fst st) = []"
  shows "distinct (map fst (vocabulary (fst (fold addEntry ws st))))
         \<and> set (map fst (vocabulary (fst (fold addEntry ws st)))) = set ws"
proof (induction ws rule: rev_induct)
  case Nil
  then show ?case using assms by simp
next
  case (snoc w ws)
  then show ?case by (auto simp: addEntry_fields map_set_keys)
qed

lemma length_vocabulary_card:
  "length (vocabulary (afterCalls uc cs)) = card (set (seeds uc))"
proof -
  have v: "vocabulary (afterCalls uc cs) = vocabulary (fst (fold addEntry (seeds uc) (blank, 0)))"
    using runCalls_fields [of uc cs "TokenVisualizer uc"]
    by (simp add: afterCalls_def TokenVisualizer_fields)
  have k: "distinct (map fst (vocabulary (afterCalls uc cs)))
           \<and> set (map fst (vocabulary (afterCalls uc cs))) = set (seeds uc)"
    unfolding v by (rule fold_addEntry_keys) (simp add: blank_def)
  show ?thesis
    using k distinct_card [of "map fst (vocabulary (afterCalls uc cs))"] by simp
qed

lemma fold_addVocabularyEntry:
  "fold (addVocabularyEntry uc []) ws acc = acc @ map vocabularyEntry ws"
  by (induction ws arbitrary: acc) (simp_all add: addVocabularyEntry_def vocabularyEntry_def)

lemma fold_addAsciiEntry:
  "asciiOffset this = 2000 \<Longrightarrow>
   fold (addAsciiEntry this []) is acc = acc @ map asciiEntry is"
  by (induction "is" arbitrary: acc) (simp_all add: addAsciiEntry_def asciiEntry_def)

lemma getVocabulary_all:
  "getVocabulary uc [] True (afterCalls uc cs)
     = sort_key token (map vocabularyEntry (vocabulary (afterCalls uc cs))
                       @ map asciiEntry [32..126])"
  by (simp add: getVocabulary_def fold_addVocabularyEntry fold_addAsciiEntry
        afterCalls_asciiOffset del: upto_rec_numeral)

subsection \<open>Calls depend on the vocabulary only, and only append to the heap\<close>

lemma same_vocabulary_encode:
  assumes "vocabulary this = vocabulary this'" "asciiOffset this = asciiOffset this'"
  shows "wordTokens uc this = wordTokens uc this'" "wordStep uc this = wordStep uc this'"
  using assms
  by (simp_all add: fun_eq_iff wordTokens_def wordStep_def encodeToAscii_def split: option.split)

lemma same_vocabulary_decode:
  assumes "reverseVocabulary this = reverseVocabulary this'" "asciiOffset this = asciiOffset this'"
  shows "tokenText this = tokenText this'" "tokenStep this = tokenStep this'"
  using assms
  by (simp_all add: fun_eq_iff tokenText_def tokenStep_def split: option.split)

lemma same_vocabulary_list:
  assumes "vocabulary this = vocabulary this'" "asciiOffset this = asciiOffset this'"
  shows "getVocabulary uc t b this = getVocabulary uc t b this'"
proof -
  have "addAsciiEntry this = addAsciiEntry this'"
    using assms by (simp add: fun_eq_iff addAsciiEntry_def)
  then show ?thesis using assms by (cases b) (simp_all add: getVocabulary_def)
qed

lemma observe_same_vocabulary:
  assumes "vocabulary this = vocabulary this'"
    "reverseVocabulary this = reverseVocabulary this'"
    "asciiOffset this = asciiOffset this'"
  shows "observe (invoke uc c this) = observe (invoke uc c this')"
proof (cases c)
  case (EncodeText t)
  then show ?thesis
    using same_vocabulary_encode [OF assms(1) assms(3), of uc]
    by (simp add: observe_def encodeText_eq Let_def nth_append)
next
  case (DecodeTokens ts)
  then show ?thesis
    using same_vocabulary_decode [OF assms(2) assms(3)]
    by (simp add: observe_def decodeTokens_eq Let_def nth_append)
next
  case (GetEncodingStats t)
  then show ?thesis
    using same_vocabulary_encode [OF assms(1) assms(3), of uc]
    by (simp add: observe_def getEncodingStats_def encodeText_eq Let_def)
next
  case (GetVocabulary t b)
  then show ?thesis
    using same_vocabulary_list [OF assms(1) assms(3), of uc t b]
    by (simp add: observe_def)
qed

lemma invoke_arrays: "\<exists>new. arrays (snd (invoke uc c this)) = arrays this @ new"
  by (cases c) (simp_all add: Let_def getEncodingStats_def encodeText_eq decodeTokens_eq)

lemma runCalls_arrays: "\<exists>new. arrays (runCalls uc ds this) = arrays this @ new"
proof (induction ds arbitrary: this)
  case Nil
  then show ?case by (simp add: runCalls_def)
next
  case (Cons d ds)
  obtain new1 where n1: "arrays (snd (invoke uc d this)) = arrays this @ new1"
    using invoke_arrays by blast
  obtain new2 where n2: "arrays (runCalls uc ds (snd (invoke uc d this)))
      = arrays (snd (invoke uc d this)) @ new2"
    using Cons by blast
  have "runCalls uc (d # ds) this = runCalls uc ds (snd (invoke uc d this))"
    by (simp add: runCalls_def)
  then show ?case using n1 n2 by simp
qed

lemma traceOf_append:
  "traceOf (snd (invoke uc c this)\<lparr>arrays := arrays (snd (invoke uc c this)) @ new\<rparr>)
     (fst (invoke uc c this))
   = traceOf (snd (invoke uc c this)) (fst (invoke uc c this))"
  by (cases c) (simp_all add: Let_def getEncodingStats_def encodeText_eq decodeTokens_eq nth_append)

lemma traceOf_arrays: "arrays this = arrays this' \<Longrightarrow> traceOf this r = traceOf this' r"
  by (cases r) simp_all

lemma traceOf_stable:
  "traceOf (runCalls uc ds (snd (invoke uc c this))) (fst (invoke uc c this))
     = traceOf (snd (invoke uc c this)) (fst (invoke uc c this))"
proof -
  obtain new where
    "arrays (runCalls uc ds (snd (invoke uc c this))) = arrays (snd (invoke uc c this)) @ new"
    using runCalls_arrays by blast
  then have "traceOf (runCalls uc ds (snd (invoke uc c this))) (fst (invoke uc c this))
      = traceOf (snd (invoke uc c this)\<lparr>arrays := arrays (snd (invoke uc c this)) @ new\<rparr>)
          (fst (invoke uc c this))"
    by (intro traceOf_arrays) simp
  then show ?thesis by (simp only: traceOf_append)
qed

lemma lookup_cat: "map_of (vocabulary (afterCalls uc cs)) (toLowerCase uc (str ''cat'')) = None"
  by (simp add: lookup_lastIndex seeds_plain specialTokens_def commonWords_def
        punctuation_def punctuationClass_def str_def toLowerCase_def asciiLower_def)

lemma lookup_the_folded:
  "map_of (vocabulary (afterCalls uc cs)) (toLowerCase uc (str ''The'')) = Some 10"
  by (simp add: lookup_lastIndex seeds_plain specialTokens_def commonWords_def
        punctuation_def punctuationClass_def str_def toLowerCase_def asciiLower_def)

lemma tokenizeWords_The_cat: "tokenizeWords (str ''The cat'') = [str ''The'', str ''cat'']"
  by (simp add: tokenizeWords_eq str_def isRegular_def isWhitespace_def isPunctuation_def
        punctuationClass_def space_def)

lemma observe_The_cat:
  "observe (invoke uc (EncodeText (str ''The cat'')) (afterCalls uc cs))
   = (Encoded \<lparr>encode_result.tokens = [10, 2099, 2097, 2116], steps = 0,
               originalText = Some (str ''The cat''), tokenCount = Some 4,
               characterCount = Some 7\<rparr>,
      [\<lparr>step = 1, input = Str (str ''The''), process = Found_in_vocabulary (str ''The''),
        output = Num 10\<rparr>,
       \<lparr>step = 2, input = Str (str ''cat''), process = Not_in_vocabulary (str ''cat''),
        output = Arr [2099, 2097, 2116]\<rparr>])"
proof -
  have cat: "encodeToAscii (afterCalls uc cs) (str ''cat'') = [2099, 2097, 2116]"
    by (simp add: encodeToAscii_def afterCalls_asciiOffset str_def
          isHighSurrogate_def isLowSurrogate_def)
  have ne: "str ''The cat'' \<noteq> []" by (simp add: str_def)
  have len: "length (str ''The cat'') = 7" by (simp add: str_def)
  show ?thesis
    using ne
    by (simp add: observe_def encodeText_eq tokenizeWords_The_cat wordTokens_def wordStep_def
          lookup_cat lookup_the_folded cat len)
qed

section \<open>\<open>getEncodingStats\<close>: the counts and the ratio\<close>

text \<open>
  Every unit is non-empty and gives one token, or one token per code point, so the
  token count never exceeds the character count: the difference from which
  \<open>compressionRatio\<close> is computed is never negative. The ratio is the number \<open>0\<close>
  exactly for the empty text.
\<close>

lemma arrayFrom_length: "length (arrayFrom w) \<le> length w"
  by (induction w rule: arrayFrom.induct) auto

lemma wordTokens_length: "w \<noteq> [] \<Longrightarrow> length (wordTokens uc this w) \<le> length w"
  using arrayFrom_length [of w]
  by (cases w) (simp_all add: wordTokens_def encodeToAscii_def split: option.split)

lemma concat_tokens_length:
  "\<forall>w\<in>set ws. w \<noteq> [] \<Longrightarrow>
   length (concat (map (wordTokens uc this) ws)) \<le> length (concat ws)"
proof (induction ws)
  case Nil
  then show ?case by simp
next
  case (Cons w ws)
  then show ?case using wordTokens_length [of w uc this] by simp
qed

lemma tokens_le_characters:
  "length (encode_result.tokens (fst (encodeText uc t this))) \<le> length t"
proof (cases "t = []")
  case True
  then show ?thesis by (simp add: encodeText_eq)
next
  case False
  have "\<forall>w\<in>set (splitUnits t). w \<noteq> []"
    using splitUnits_shape by blast
  then have "length (concat (map (wordTokens uc this) (splitUnits t)))
             \<le> length (concat (splitUnits t))"
    by (rule concat_tokens_length)
  also have "\<dots> \<le> length t"
    by (simp add: splitUnits_concat)
  finally show ?thesis using False by (simp add: encodeText_eq tokenizeWords_eq)
qed

lemma getEncodingStats_counts:
  "stats_result.characterCount (fst (getEncodingStats uc t this)) = length t
   \<and> stats_result.tokenCount (fst (getEncodingStats uc t this))
       = length (stats_result.tokens (fst (getEncodingStats uc t this)))
   \<and> stats_result.tokenCount (fst (getEncodingStats uc t this)) \<le> length t
   \<and> (compressionRatio (fst (getEncodingStats uc t this)) = Num 0 \<longleftrightarrow> t = [])"
  using tokens_le_characters [of uc t this]
  by (simp add: getEncodingStats_def Let_def)

subsection \<open>The rounding error of the double arithmetic\<close>

text \<open>
  Rounding to the nearest double changes a non-negative value by at most the fraction
  \<open>2 ^ -53\<close> of it, and \<open>toFixed(1)\<close> chooses a decimal within \<open>1 / 20\<close> of the
  double it is given.
\<close>

lemma roundHalfEven_error: "\<bar>of_int (roundHalfEven q) - q\<bar> \<le> 1 / 2"
proof -
  have "of_int \<lfloor>q\<rfloor> \<le> q" "q < of_int \<lfloor>q\<rfloor> + 1"
    by linarith+
  then show ?thesis
    by (auto simp: roundHalfEven_def Let_def)
qed

lemma powi_bitlen:
  assumes "0 < x"
  shows "(2::rat) powi (bitlen x - 1) \<le> of_int x" "of_int x < (2::rat) powi bitlen x"
proof -
  have b1: "1 \<le> bitlen x" using assms by (auto simp: bitlen_alt_def)
  have lo: "(2::int) ^ nat (bitlen x - 1) \<le> x" and hi: "x < 2 ^ nat (bitlen x)"
    using bitlen_bounds [OF assms] by auto
  have "(2::rat) powi (bitlen x - 1) = of_int (2 ^ nat (bitlen x - 1))"
    using b1 by (simp add: power_int_def)
  also have "\<dots> \<le> of_int x" using lo by (simp only: of_int_le_iff)
  finally show "(2::rat) powi (bitlen x - 1) \<le> of_int x" .
  have "(of_int x :: rat) < of_int (2 ^ nat (bitlen x))"
    using hi by (simp only: of_int_less_iff)
  also have "\<dots> = (2::rat) powi bitlen x"
    using b1 by (simp add: power_int_def)
  finally show "of_int x < (2::rat) powi bitlen x" .
qed

lemma binaryExponent_bounds:
  assumes "0 < q"
  shows "2 powi binaryExponent q \<le> q" "q < 2 powi (binaryExponent q + 1)"
proof -
  obtain p d where pd: "quotient_of q = (p, d)" by (cases "quotient_of q") auto
  have d: "0 < d" using pd by (rule quotient_of_denom_pos)
  have q: "q = of_int p / of_int d" using pd by (rule quotient_of_div)
  have p: "0 < p" using assms d q by (simp add: zero_less_divide_iff)
  define k where "k = bitlen p - bitlen d"
  note bp = powi_bitlen [OF p] and bd = powi_bitlen [OF d]
  have up: "q < 2 powi (k + 1)"
  proof -
    have "of_int p / of_int d < (2::rat) powi bitlen p / 2 powi (bitlen d - 1)"
      using p d bp bd by (intro frac_less) auto
    also have "\<dots> = 2 powi (bitlen p - (bitlen d - 1))"
      by (simp add: power_int_diff)
    finally show ?thesis by (simp add: q k_def algebra_simps)
  qed
  have low: "2 powi (k - 1) < q"
  proof -
    have "(2::rat) powi (bitlen p - 1) / 2 powi bitlen d < of_int p / of_int d"
      using p d bp bd by (intro frac_less2) auto
    moreover have "(2::rat) powi (bitlen p - 1) / 2 powi bitlen d = 2 powi (bitlen p - 1 - bitlen d)"
      by (simp add: power_int_diff)
    ultimately show ?thesis by (simp add: q k_def algebra_simps)
  qed
  have E: "binaryExponent q = (if 2 powi k \<le> q then k else k - 1)"
    by (simp add: binaryExponent_def pd k_def Let_def)
  show "2 powi binaryExponent q \<le> q" using low by (simp add: E)
  show "q < 2 powi (binaryExponent q + 1)" using up by (auto simp: E not_le)
qed

lemma nearestDouble_error:
  assumes "0 \<le> q"
  shows "\<bar>nearestDouble q - q\<bar> \<le> q / 2 ^ 53"
proof (cases "q = 0")
  case True
  then show ?thesis by (simp add: nearestDouble_def)
next
  case False
  then have pos: "0 < q" using assms by simp
  define e where "e = binaryExponent q - 52"
  define u :: rat where "u = 2 powi e"
  have u: "0 < u" by (simp add: u_def)
  have ue: "u = 2 powi binaryExponent q / 2 ^ 52"
    by (simp add: u_def e_def power_int_diff)
  have uq: "u \<le> q / 2 ^ 52"
    using binaryExponent_bounds(1) [OF pos] by (simp add: ue divide_right_mono)
  have nd: "nearestDouble q = of_int (roundHalfEven (q / u)) * u"
    using False by (simp add: nearestDouble_def e_def u_def Let_def)
  have "of_int (roundHalfEven (q / u)) * u - q = (of_int (roundHalfEven (q / u)) - q / u) * u"
    using u by (simp add: field_simps)
  then have "\<bar>of_int (roundHalfEven (q / u)) * u - q\<bar>
      = \<bar>of_int (roundHalfEven (q / u)) - q / u\<bar> * u"
    using u by (simp add: abs_mult)
  also have "\<dots> \<le> 1 / 2 * u"
    using roundHalfEven_error [of "q / u"] u by (intro mult_right_mono) auto
  also have "\<dots> \<le> 1 / 2 * (q / 2 ^ 52)"
    using uq by simp
  also have "\<dots> = q / 2 ^ 53" by simp
  finally show ?thesis by (simp only: nd)
qed

lemma toFixed1_tenths_error: "\<bar>of_int (toFixed1_tenths x) / 10 - x\<bar> \<le> 1 / 20"
proof -
  define n where "n = toFixed1_tenths x"
  have "of_int n \<le> 10 * x + 1 / 2" "10 * x + 1 / 2 < of_int n + 1"
    unfolding n_def toFixed1_tenths_def by linarith+
  then have "\<bar>of_int n / 10 - x\<bar> \<le> 1 / 20"
    by (simp only: abs_le_iff) linarith
  then show ?thesis by (simp only: n_def)
qed

lemma ratio_error:
  assumes "0 \<le> a" "a \<le> b" "0 < b"
  shows "0 \<le> js_mul (js_div a b) 100"
    and "\<bar>js_mul (js_div a b) 100 - a / b * 100\<bar> \<le> 1 / 2 ^ 45"
proof -
  define q where "q = a / b"
  define x1 where "x1 = js_div a b"
  define x2 where "x2 = js_mul x1 100"
  define d1 where "d1 = q / 2 ^ 53"
  define d2 where "d2 = x1 * 100 / 2 ^ 53"
  have q: "0 \<le> q" "q \<le> 1" using assms by (simp_all add: q_def)
  have d1: "0 \<le> d1" "d1 \<le> 1 / 2 ^ 53" "d1 \<le> q"
    using q by (simp_all add: d1_def field_simps)
  have e1: "\<bar>x1 - q\<bar> \<le> d1"
    using nearestDouble_error [OF q(1)] by (simp add: x1_def js_div_def q_def d1_def)
  have x1: "0 \<le> x1" "x1 \<le> 1 + 1 / 2 ^ 53"
    using e1 d1 q by (simp_all only: abs_le_iff) linarith+
  have x1h: "0 \<le> x1 * 100" using x1 by simp
  have d2: "0 \<le> d2" "d2 \<le> (1 + 1 / 2 ^ 53) * 100 / 2 ^ 53"
    using x1 by (simp_all add: d2_def field_simps)
  have e2: "\<bar>x2 - x1 * 100\<bar> \<le> d2"
    using nearestDouble_error [OF x1h] by (simp add: x2_def js_mul_def d2_def)
  have "0 \<le> x2" using e2 x1h d2 x1
    by (simp only: abs_le_iff d2_def) (simp add: field_simps)
  then show "0 \<le> js_mul (js_div a b) 100" by (simp add: x2_def x1_def)
  have "\<bar>x2 - q * 100\<bar> \<le> d2 + d1 * 100"
    using e1 e2 by (simp only: abs_le_iff) linarith
  also have "\<dots> \<le> (1 + 1 / 2 ^ 53) * 100 / 2 ^ 53 + 1 / 2 ^ 53 * 100"
    using d1 d2 by (intro add_mono) simp_all
  also have "\<dots> \<le> 1 / 2 ^ 45" by simp
  finally show "\<bar>js_mul (js_div a b) 100 - a / b * 100\<bar> \<le> 1 / 2 ^ 45"
    by (simp add: x2_def x1_def q_def)
qed

lemma percent_error:
  assumes "k \<le> c" "0 < c"
  shows "0 \<le> doublePercent c k"
    and "\<bar>doublePercent c k - exactPercent c k\<bar> \<le> 1 / 2 ^ 45"
    and "0 \<le> toFixed1_tenths (doublePercent c k)"
    and "\<bar>of_int (toFixed1_tenths (doublePercent c k)) / 10 - exactPercent c k\<bar>
           \<le> 1 / 20 + 1 / 2 ^ 45"
proof -
  have a: "(0::rat) \<le> of_nat c - of_nat k" "(of_nat c - of_nat k :: rat) \<le> of_nat c"
    "(0::rat) < of_nat c"
    using assms by simp_all
  show nonneg: "0 \<le> doublePercent c k"
    unfolding doublePercent_def by (rule ratio_error(1) [OF a])
  show close: "\<bar>doublePercent c k - exactPercent c k\<bar> \<le> 1 / 2 ^ 45"
    unfolding doublePercent_def exactPercent_def by (rule ratio_error(2) [OF a])
  have "(0::rat) \<le> 10 * doublePercent c k + 1 / 2" using nonneg by simp
  then show "0 \<le> toFixed1_tenths (doublePercent c k)"
    by (simp add: toFixed1_tenths_def)
  show "\<bar>of_int (toFixed1_tenths (doublePercent c k)) / 10 - exactPercent c k\<bar>
           \<le> 1 / 20 + 1 / 2 ^ 45"
    using toFixed1_tenths_error [of "doublePercent c k"] close
    by (simp only: abs_le_iff) linarith
qed

lemma getEncodingStats_eq:
  "fst (getEncodingStats uc t this)
     = \<lparr>characterCount = length t,
        tokenCount = length (encode_result.tokens (fst (encodeText uc t this))),
        compressionRatio =
          (if t = [] then Num 0
           else Str (toFixed1 (doublePercent (length t)
                       (length (encode_result.tokens (fst (encodeText uc t this))))))),
        tokens = encode_result.tokens (fst (encodeText uc t this))\<rparr>"
  by (simp add: getEncodingStats_def doublePercent_def Let_def)

subsection \<open>Evaluations\<close>

lemma tokenizeWords_xyz:
  "tokenizeWords (str ''xyz123!@#'') = [str ''xyz123'', str ''!'', [0x40], str ''#'']"
  by (simp add: tokenizeWords_eq str_def isRegular_def isWhitespace_def isPunctuation_def
        punctuationClass_def space_def)

lemma lookup_xyz:
  "map_of (vocabulary (afterCalls uc cs)) (toLowerCase uc (str ''xyz123'')) = None"
  "map_of (vocabulary (afterCalls uc cs)) (toLowerCase uc (str ''!'')) = Some 175"
  "map_of (vocabulary (afterCalls uc cs)) (toLowerCase uc [0x40]) = Some 195"
  "map_of (vocabulary (afterCalls uc cs)) (toLowerCase uc (str ''#'')) = Some 196"
  by (simp_all add: lookup_lastIndex seeds_plain specialTokens_def commonWords_def
        punctuation_def punctuationClass_def str_def toLowerCase_def asciiLower_def)

lemma tokens_xyz:
  "encode_result.tokens (fst (encodeText uc (str ''xyz123!@#'') (afterCalls uc cs)))
     = [2120, 2121, 2122, 2049, 2050, 2051, 175, 195, 196]"
proof -
  have ne: "str ''xyz123!@#'' \<noteq> []" by (simp add: str_def)
  have a: "encodeToAscii (afterCalls uc cs) (str ''xyz123'') = [2120, 2121, 2122, 2049, 2050, 2051]"
    by (simp add: encodeToAscii_def afterCalls_asciiOffset str_def
          isHighSurrogate_def isLowSurrogate_def)
  show ?thesis
    using ne by (simp add: encodeText_eq tokenizeWords_xyz wordTokens_def lookup_xyz a)
qed

lemma toFixed1_zero: "toFixed1 (doublePercent 9 9) = str ''0.0''"
  by code_simp

lemma toFixed1_x29: "toFixed1 (doublePercent 80 29) = str ''63.7''"
  by code_simp

lemma toFixed1_exact_x29: "toFixed1 (exactPercent 80 29) = str ''63.8''"
  by code_simp

lemma exact_x29: "exactPercent 80 29 = 255 / 4" "roundHalfEven (10 * exactPercent 80 29) = 638"
  by code_simp+

lemma tokenizeWords_x29:
  "tokenizeWords (str ''xxxxxxxxxxxxxxxxxxxxxxxxxxxxx                                                   '') = [str ''xxxxxxxxxxxxxxxxxxxxxxxxxxxxx'']"
  by (simp add: tokenizeWords_eq str_def isRegular_def isWhitespace_def isPunctuation_def
        punctuationClass_def space_def)

lemma lookup_x29:
  "map_of (vocabulary (afterCalls uc cs)) (toLowerCase uc (str ''xxxxxxxxxxxxxxxxxxxxxxxxxxxxx''))
     = None"
  by (simp add: lookup_lastIndex seeds_plain specialTokens_def commonWords_def
        punctuation_def punctuationClass_def str_def toLowerCase_def asciiLower_def)

lemma counts_x29:
  "length (str ''xxxxxxxxxxxxxxxxxxxxxxxxxxxxx                                                   '') = 80"
  "length (encode_result.tokens (fst (encodeText uc (str ''xxxxxxxxxxxxxxxxxxxxxxxxxxxxx                                                   '') (afterCalls uc cs)))) = 29"
proof -
  show "length (str ''xxxxxxxxxxxxxxxxxxxxxxxxxxxxx                                                   '') = 80" by (simp add: str_def)
  have ne: "str ''xxxxxxxxxxxxxxxxxxxxxxxxxxxxx                                                   '' \<noteq> []" by (simp add: str_def)
  have a: "length (encodeToAscii (afterCalls uc cs) (str ''xxxxxxxxxxxxxxxxxxxxxxxxxxxxx'')) = 29"
    by (simp add: encodeToAscii_def str_def isHighSurrogate_def isLowSurrogate_def)
  show "length (encode_result.tokens (fst (encodeText uc (str ''xxxxxxxxxxxxxxxxxxxxxxxxxxxxx                                                   '') (afterCalls uc cs)))) = 29"
    using ne by (simp add: encodeText_eq tokenizeWords_x29 wordTokens_def lookup_x29 a)
qed

section \<open>The claims\<close>

text \<open>
  C7. For every text, \<open>tokenizeWords\<close> returns the units of the specification's
  splitting: scanning left to right, each maximal run of regular characters is one unit,
  each punctuation character and each whitespace character other than the plain space
  is a unit of its own, the plain space gives no unit and only ends the pending run, and
  the run pending at the end of the text is a unit. Hence the units, concatenated, are
  the text without its plain spaces, and every unit is non-empty and is either a run of
  regular characters or a single delimiter that is not the plain space.
\<close>

theorem tokenizeWords_units:
  "tokenizeWords t = splitUnits t
   \<and> concat (tokenizeWords t) = filter (\<lambda>c. c \<noteq> space) t
   \<and> (\<forall>u\<in>set (tokenizeWords t).
        u \<noteq> [] \<and> (list_all isRegular u \<or> (\<exists>c. u = [c] \<and> \<not> isRegular c \<and> c \<noteq> space)))"
  using splitUnits_concat [of t] splitUnits_shape [of _ t]
  by (simp add: tokenizeWords_eq)

theorem tokenizeWords_units_witness:
  "tokenizeWords (str ''Hi, you'') = [str ''Hi'', str '','', str ''you'']
   \<and> splitUnits (str ''Hi, you'') = [str ''Hi'', str '','', str ''you'']
   \<and> str ''Hi'' \<in> set (tokenizeWords (str ''Hi, you''))
   \<and> list_all isRegular (str ''Hi'')"
  using tokenizeWords_units [of "str ''Hi, you''"]
  by (simp add: str_def isRegular_def isWhitespace_def isPunctuation_def
        punctuationClass_def space_def)

section \<open>\<open>encodeText\<close>: the token count\<close>

text \<open>
  C1 (as amended). For every non-empty text, the result of \<open>encodeText\<close> has a
  \<open>tokenCount\<close> field, a non-negative integer equal to the length of its \<open>tokens\<close>
  array. For the empty text the result is the object \<open>{tokens: [], steps: []}\<close>: its
  \<open>tokens\<close> array is empty and it has no \<open>tokenCount\<close> field.
\<close>

theorem encodeText_tokenCount:
  "(t \<noteq> [] \<longrightarrow>
      encode_result.tokenCount (fst (encodeText uc t this))
        = Some (length (encode_result.tokens (fst (encodeText uc t this)))))
   \<and> (t = [] \<longrightarrow>
      encode_result.tokenCount (fst (encodeText uc t this)) = None
      \<and> encode_result.tokens (fst (encodeText uc t this)) = [])"
proof (cases "t = []")
  case True
  then have "fst (encodeText uc t this)
      = \<lparr>encode_result.tokens = [], steps = length (arrays this), originalText = None,
         tokenCount = None, characterCount = None\<rparr>"
    by (simp add: encodeText_eq)
  then show ?thesis using True by simp
next
  case False
  then have "fst (encodeText uc t this)
      = \<lparr>encode_result.tokens = concat (map (wordTokens uc this) (tokenizeWords t)),
         steps = length (arrays this), originalText = Some t,
         tokenCount = Some (length (concat (map (wordTokens uc this) (tokenizeWords t)))),
         characterCount = Some (length t)\<rparr>"
    by (simp add: encodeText_eq)
  then show ?thesis using False by simp
qed

theorem encodeText_tokenCount_witness:
  "str ''cat'' \<noteq> []
   \<and> encode_result.tokenCount (fst (encodeText id (str ''cat'') (TokenVisualizer id)))
       = Some (length (encode_result.tokens
                 (fst (encodeText id (str ''cat'') (TokenVisualizer id)))))
   \<and> encode_result.tokenCount (fst (encodeText id [] (TokenVisualizer id))) = None
   \<and> encode_result.tokens (fst (encodeText id [] (TokenVisualizer id))) = []"
  using encodeText_tokenCount [of "str ''cat''" id "TokenVisualizer id"]
    encodeText_tokenCount [of "[]" id "TokenVisualizer id"]
  by (simp add: str_def)

text \<open>
  The claim as it was stated, with the empty string included, fails there: the result
  for the empty text has no \<open>tokenCount\<close>.
\<close>

theorem encodeText_tokenCount_empty:
  "encode_result.tokenCount (fst (encodeText id [] (TokenVisualizer id)))
     \<noteq> Some (length (encode_result.tokens
                (fst (encodeText id [] (TokenVisualizer id)))))"
  by (simp add: encodeText_def Let_def)

section \<open>\<open>decodeTokens\<close>: unknown token ids\<close>

text \<open>
  C2. For every sequence of integer token ids, on every tokenizer reached by any calls,
  \<open>decodeTokens\<close> returns a result: its text is the concatenation, in order, of what
  each id contributes, and its trace has one step per id. For each id that is neither
  a key of the inverse vocabulary map nor at least the ASCII offset 2000, the
  contribution is the text \<open><UNK>\<close> and the step at that position is the "not found,
  using <UNK>" step for that id; the ids after it are decoded as usual.
\<close>

theorem decodeTokens_unknown:
  "text (fst (decodeTokens ts (afterCalls uc cs)))
     = concat (map (tokenText (afterCalls uc cs)) ts)
   \<and> length (arrays (snd (decodeTokens ts (afterCalls uc cs)))
               ! decode_result.steps (fst (decodeTokens ts (afterCalls uc cs)))) = length ts
   \<and> (\<forall>i<length ts.
        map_of (reverseVocabulary (afterCalls uc cs)) (ts ! i) = None \<and> ts ! i < 2000 \<longrightarrow>
          tokenText (afterCalls uc cs) (ts ! i) = str ''<UNK>''
          \<and> arrays (snd (decodeTokens ts (afterCalls uc cs)))
               ! decode_result.steps (fst (decodeTokens ts (afterCalls uc cs))) ! i
             = \<lparr>step = i + 1, input = Num (ts ! i), process = Token_not_found (ts ! i),
                output = Str (str ''<UNK>'')\<rparr>)"
proof (intro conjI allI impI)
  show "text (fst (decodeTokens ts (afterCalls uc cs)))
     = concat (map (tokenText (afterCalls uc cs)) ts)"
    by (rule decode_text)
  show "length (arrays (snd (decodeTokens ts (afterCalls uc cs)))
               ! decode_result.steps (fst (decodeTokens ts (afterCalls uc cs)))) = length ts"
    by (simp add: decode_trace)
next
  fix i
  assume i: "i < length ts"
    and unk: "map_of (reverseVocabulary (afterCalls uc cs)) (ts ! i) = None \<and> ts ! i < 2000"
  show "tokenText (afterCalls uc cs) (ts ! i) = str ''<UNK>''"
    using unk by (simp add: tokenText_unknown afterCalls_asciiOffset UNK_def)
  show "arrays (snd (decodeTokens ts (afterCalls uc cs)))
               ! decode_result.steps (fst (decodeTokens ts (afterCalls uc cs))) ! i
             = \<lparr>step = i + 1, input = Num (ts ! i), process = Token_not_found (ts ! i),
                output = Str (str ''<UNK>'')\<rparr>"
    using i unk
    by (simp add: decode_trace nth_enumerate_eq tokenStep_def tokenText_def
          afterCalls_asciiOffset UNK_def)
qed

theorem decodeTokens_unknown_witness:
  "(1::nat) < length [2072, 1500, 2101 :: int] \<and> [2072, 1500, 2101 :: int] ! 1 < 2000
   \<and> map_of (reverseVocabulary (afterCalls id [])) ([2072, 1500, 2101] ! 1) = None
   \<and> text (fst (decodeTokens [2072, 1500, 2101] (afterCalls id [])))
       = str ''H<UNK>e''"
  using decodeTokens_unknown [of "[2072, 1500, 2101]" id "[]"]
  by (simp add: reverse_lookup_cases tokenText_def afterCalls_asciiOffset UNK_def str_def
        fromCharCode_def js_sub_def js_nearest_def)

section \<open>Decoding a vocabulary id\<close>

text \<open>
  C3. For every unit \<open>u\<close> that the forward map of the vocabulary holds, with id \<open>i\<close>,
  decoding the one-element sequence \<open>[i]\<close> gives exactly the text \<open>u\<close> (on every
  tokenizer reached by any calls; the word entries are stored case-folded).
\<close>

theorem decode_idOf:
  "map_of (vocabulary (afterCalls uc cs)) u = Some i
   \<Longrightarrow> text (fst (decodeTokens [i] (afterCalls uc cs'))) = u"
  using forward_reverse [of uc cs u i cs'] by (simp add: decode_text tokenText_def)

theorem decode_idOf_witness:
  "map_of (vocabulary (afterCalls id [])) (str ''the'') = Some 10
   \<and> text (fst (decodeTokens [10] (afterCalls id [EncodeText (str ''a b'')])))
       = str ''the''"
  using decode_idOf [of id "[]" "str ''the''" 10 "[EncodeText (str ''a b'')]"]
    lookup_the [of id "[]"]
  by simp

section \<open>The ASCII fallback round trip\<close>

text \<open>
  C4 (as amended). For every character \<open>c\<close> that is a single UTF-16 code unit (every
  code up to 65535) and whose unit is not a vocabulary entry after case folding: the
  text \<open>c\<close> is split into the one unit \<open>c\<close>, it is encoded as the one token
  \<open>code c + 2000\<close>, and decoding the tokens of its encoding gives back exactly the
  text \<open>c\<close>, whatever calls were made before the encoding and before the decoding.
\<close>

theorem ascii_round_trip:
  assumes "map_of (vocabulary (afterCalls uc cs)) (toLowerCase uc [c]) = None"
  shows "tokenizeWords [c] = [[c]]
         \<and> encode_result.tokens (fst (encodeText uc [c] (afterCalls uc cs))) = [uint c + 2000]
         \<and> text (fst (decodeTokens
                   (encode_result.tokens (fst (encodeText uc [c] (afterCalls uc cs))))
                   (afterCalls uc cs'))) = [c]"
proof -
  have notspace: "c \<noteq> space"
    using assms vocabulary_space [of uc cs] toLowerCase_space [of uc]
    by (auto simp: space_def)
  have units: "tokenizeWords [c] = [[c]]"
    using notspace by (simp add: tokenizeWords_eq)
  have toks: "encode_result.tokens (fst (encodeText uc [c] (afterCalls uc cs))) = [uint c + 2000]"
    using assms
    by (simp add: encodeText_eq units wordTokens_def encodeToAscii_def afterCalls_asciiOffset)
  have "0 \<le> uint c" by simp
  then have "tokenText (afterCalls uc cs') (uint c + 2000) = [c]"
    by (simp add: tokenText_ascii uint_jschar_exact)
  then show ?thesis using units toks by (simp add: decode_text)
qed

theorem ascii_round_trip_witness:
  "map_of (vocabulary (afterCalls id [])) (toLowerCase id [0x78]) = None
   \<and> encode_result.tokens (fst (encodeText id [0x78] (afterCalls id []))) = [2120]
   \<and> text (fst (decodeTokens
             (encode_result.tokens (fst (encodeText id [0x78] (afterCalls id []))))
             (afterCalls id [EncodeText [0x78]]))) = [0x78]"
proof -
  have h: "map_of (vocabulary (afterCalls id [])) (toLowerCase id [0x78]) = None"
    using lookup_x [of id "[]"] by (simp add: str_def)
  note r = ascii_round_trip [OF h, of "[EncodeText [0x78]]"]
  have t: "encode_result.tokens (fst (encodeText id [0x78] (afterCalls id []))) = [2120]"
    using r [THEN conjunct2, THEN conjunct1] by simp
  show ?thesis
    using h t r [THEN conjunct2, THEN conjunct2] by (intro conjI)
qed

text \<open>
  The claim as it was stated, for every single character, fails on a character beyond
  the Basic Multilingual Plane: it is a pair of code units, which \<open>Array.from\<close> takes
  as one element of which \<open>charCodeAt(0)\<close> reads the first. U+1F600 is the text
  \<open>D83D DE00\<close>; it is one unit, not a vocabulary entry, encoded as the one token
  \<open>0xD83D + 2000 = 57357\<close>, and decoding gives the lone code unit \<open>D83D\<close>.
\<close>

theorem ascii_round_trip_pair:
  "map_of (vocabulary (afterCalls id [])) (toLowerCase id [0xD83D, 0xDE00]) = None
   \<and> tokenizeWords [0xD83D, 0xDE00] = [[0xD83D, 0xDE00]]
   \<and> encode_result.tokens (fst (encodeText id [0xD83D, 0xDE00] (afterCalls id []))) = [57357]
   \<and> text (fst (decodeTokens
             (encode_result.tokens (fst (encodeText id [0xD83D, 0xDE00] (afterCalls id []))))
             (afterCalls id [EncodeText [0xD83D, 0xDE00]]))) = [0xD83D]
   \<and> text (fst (decodeTokens
             (encode_result.tokens (fst (encodeText id [0xD83D, 0xDE00] (afterCalls id []))))
             (afterCalls id [EncodeText [0xD83D, 0xDE00]]))) \<noteq> [0xD83D, 0xDE00]"
proof -
  have l: "map_of (vocabulary (afterCalls id [])) (toLowerCase id [0xD83D, 0xDE00]) = None"
    by (simp add: lookup_lastIndex seeds_plain specialTokens_def commonWords_def
          punctuation_def punctuationClass_def str_def toLowerCase_def)
  have u: "tokenizeWords [0xD83D, 0xDE00] = [[0xD83D, 0xDE00]]"
    by (simp add: tokenizeWords_eq isRegular_def isWhitespace_def isPunctuation_def
          punctuationClass_def space_def str_def)
  have t: "encode_result.tokens (fst (encodeText id [0xD83D, 0xDE00] (afterCalls id []))) = [57357]"
    by (simp add: encodeText_eq u wordTokens_def l encodeToAscii_def afterCalls_asciiOffset
          isHighSurrogate_def isLowSurrogate_def)
  have d: "text (fst (decodeTokens [57357] (afterCalls id [EncodeText [0xD83D, 0xDE00]])))
      = [0xD83D]"
    by (simp add: decode_text tokenText_ascii js_sub_def js_nearest_exact)
  show ?thesis using l u d by (simp only: t) simp
qed

section \<open>The vocabulary table after initialization\<close>

text \<open>
  C5. After initialization, and after any calls, the vocabulary table is this. The ids
  are given to the 208 seed entries (special tokens, common words, punctuation) in
  order from 0 with no gaps: the inverse map has exactly the keys 0..207, in this
  order, and holds at id \<open>j\<close> the \<open>j\<close>-th seed entry. For every unit \<open>u\<close> of the
  forward map with id \<open>i\<close>, the inverse map at \<open>i\<close> is \<open>u\<close>. The forward map holds for a
  unit the id of its last occurrence among the seed entries and no other; so for a unit
  that occurs more than once, each earlier id is still a key of the inverse map, with
  that unit, while the forward map does not send the unit back to it.
\<close>

theorem vocabulary_table:
  "length (seeds uc) = 208
   \<and> seeds uc = specialTokens @ commonWords @ punctuation
   \<and> map fst (reverseVocabulary (afterCalls uc cs)) = map int [0..<208]
   \<and> map snd (reverseVocabulary (afterCalls uc cs)) = seeds uc
   \<and> (\<forall>u i. map_of (vocabulary (afterCalls uc cs)) u = Some i
          \<longrightarrow> map_of (reverseVocabulary (afterCalls uc cs)) i = Some u)
   \<and> (\<forall>u i. map_of (vocabulary (afterCalls uc cs)) u = Some i
          \<longleftrightarrow> (\<exists>j<208. i = int j \<and> seeds uc ! j = u
                 \<and> (\<forall>k. j < k \<and> k < 208 \<longrightarrow> seeds uc ! k \<noteq> u)))
   \<and> (\<forall>j k. j < k \<and> k < 208 \<and> seeds uc ! j = seeds uc ! k
          \<longrightarrow> map_of (reverseVocabulary (afterCalls uc cs)) (int j) = Some (seeds uc ! j)
              \<and> map_of (vocabulary (afterCalls uc cs)) (seeds uc ! j) \<noteq> Some (int j))"
proof (intro conjI allI impI)
  show "length (seeds uc) = 208" by (rule length_seeds)
  show "seeds uc = specialTokens @ commonWords @ punctuation" by (rule seeds_plain)
  show "map fst (reverseVocabulary (afterCalls uc cs)) = map int [0..<208]"
    using reverse_keys [of uc cs] by (simp only: length_seeds)
  show "map snd (reverseVocabulary (afterCalls uc cs)) = seeds uc" by (rule reverse_values)
next
  fix u i
  assume "map_of (vocabulary (afterCalls uc cs)) u = Some i"
  then show "map_of (reverseVocabulary (afterCalls uc cs)) i = Some u"
    by (rule forward_reverse)
next
  fix u i
  show "map_of (vocabulary (afterCalls uc cs)) u = Some i
          \<longleftrightarrow> (\<exists>j<208. i = int j \<and> seeds uc ! j = u
                 \<and> (\<forall>k. j < k \<and> k < 208 \<longrightarrow> seeds uc ! k \<noteq> u))"
    using afterCalls_vocabulary [of uc cs u i] by (simp only: length_seeds)
next
  fix j k :: nat
  assume jk: "j < k \<and> k < 208 \<and> seeds uc ! j = seeds uc ! k"
  then show "map_of (reverseVocabulary (afterCalls uc cs)) (int j) = Some (seeds uc ! j)"
    by (simp add: reverse_lookup_cases)
  show "map_of (vocabulary (afterCalls uc cs)) (seeds uc ! j) \<noteq> Some (int j)"
  proof
    assume "map_of (vocabulary (afterCalls uc cs)) (seeds uc ! j) = Some (int j)"
    then obtain j' where j': "int j = int j'"
      and later: "\<forall>k. j' < k \<and> k < length (seeds uc) \<longrightarrow> seeds uc ! k \<noteq> seeds uc ! j"
      unfolding afterCalls_vocabulary by blast
    from j' have "j' = j" by simp
    with later jk show False by (auto simp: length_seeds)
  qed
qed

theorem vocabulary_table_witness:
  "(57::nat) < 119 \<and> (119::nat) < 208 \<and> seeds id ! 57 = seeds id ! 119
   \<and> map_of (reverseVocabulary (afterCalls id [])) 57 = Some (str ''which'')
   \<and> map_of (vocabulary (afterCalls id [])) (str ''which'') = Some 161
   \<and> map_of (reverseVocabulary (afterCalls id [])) 161 = Some (str ''which'')"
proof -
  note t = vocabulary_table [of id "[]"]
  have dup: "(57::nat) < 119 \<and> (119::nat) < 208 \<and> seeds id ! 57 = seeds id ! 119"
    by (simp add: seeds_57 seeds_119)
  have orphan: "map_of (reverseVocabulary (afterCalls id [])) (int 57) = Some (seeds id ! 57)"
    using t dup by blast
  have fwd: "map_of (vocabulary (afterCalls id [])) (str ''which'') = Some 161"
    by (rule lookup_which)
  have rev161: "map_of (reverseVocabulary (afterCalls id [])) 161 = Some (str ''which'')"
    using t fwd by blast
  show ?thesis using dup orphan fwd rev161 by (simp add: seeds_57)
qed

section \<open>The compression ratio\<close>

text \<open>
  C6 (as amended). For the empty text \<open>getEncodingStats\<close> returns the number 0 as
  \<open>compressionRatio\<close>. For every other text it returns the string \<open>toFixed(1)\<close> makes
  of the double computed as (charCount - tokenCount) / charCount * 100, a double division
  followed by a double multiplication: the decimal with one digit after the point that
  is nearest to that double. The double differs from the exact ratio by at most
  \<open>2 ^ -45\<close>, so the value returned is within \<open>0.05 + 2 ^ -45\<close> of the exact ratio;
  it is the exact ratio's own rounding except where the exact ratio lies on or next to
  a boundary between two decimals. Nothing clamps the value, and since tokenCount never
  exceeds charCount it is never negative; for the text \<open>xyz123!@#\<close> it is \<open>0.0\<close>.
\<close>

theorem getEncodingStats_ratio:
  "(t = [] \<longrightarrow> compressionRatio (fst (getEncodingStats uc t this)) = Num 0)
   \<and> (t \<noteq> [] \<longrightarrow>
        compressionRatio (fst (getEncodingStats uc t this))
          = Str (toFixed1 (doublePercent (stats_result.characterCount (fst (getEncodingStats uc t this)))
                   (stats_result.tokenCount (fst (getEncodingStats uc t this)))))
        \<and> stats_result.characterCount (fst (getEncodingStats uc t this)) = length t
        \<and> stats_result.tokenCount (fst (getEncodingStats uc t this)) \<le> length t
        \<and> 0 \<le> toFixed1_tenths (doublePercent (length t)
                   (stats_result.tokenCount (fst (getEncodingStats uc t this))))
        \<and> \<bar>doublePercent (length t) (stats_result.tokenCount (fst (getEncodingStats uc t this)))
             - exactPercent (length t) (stats_result.tokenCount (fst (getEncodingStats uc t this)))\<bar>
            \<le> 1 / 2 ^ 45
        \<and> \<bar>of_int (toFixed1_tenths (doublePercent (length t)
                   (stats_result.tokenCount (fst (getEncodingStats uc t this))))) / 10
             - exactPercent (length t) (stats_result.tokenCount (fst (getEncodingStats uc t this)))\<bar>
            \<le> 1 / 20 + 1 / 2 ^ 45)"
proof (cases "t = []")
  case True
  then show ?thesis by (simp add: getEncodingStats_eq)
next
  case False
  define k where "k = length (encode_result.tokens (fst (encodeText uc t this)))"
  have k: "k \<le> length t" unfolding k_def by (rule tokens_le_characters)
  have c: "0 < length t" using False by simp
  have r: "fst (getEncodingStats uc t this)
     = \<lparr>characterCount = length t, tokenCount = k,
        compressionRatio = Str (toFixed1 (doublePercent (length t) k)),
        tokens = encode_result.tokens (fst (encodeText uc t this))\<rparr>"
    using False by (simp add: getEncodingStats_eq k_def)
  show ?thesis
    using False k percent_error [OF k c] by (simp only: r) simp
qed

theorem getEncodingStats_ratio_witness:
  "str ''xyz123!@#'' \<noteq> []
   \<and> compressionRatio (fst (getEncodingStats id (str ''xyz123!@#'') (afterCalls id [])))
       = Str (str ''0.0'')
   \<and> stats_result.tokenCount (fst (getEncodingStats id (str ''xyz123!@#'') (afterCalls id []))) = 9
   \<and> compressionRatio (fst (getEncodingStats id [] (afterCalls id []))) = Num 0"
proof -
  have ne: "str ''xyz123!@#'' \<noteq> []" by (simp add: str_def)
  have len: "length (str ''xyz123!@#'') = 9" by (simp add: str_def)
  have k: "stats_result.tokenCount (fst (getEncodingStats id (str ''xyz123!@#'') (afterCalls id []))) = 9"
    by (simp add: getEncodingStats_eq tokens_xyz)
  have c: "stats_result.characterCount (fst (getEncodingStats id (str ''xyz123!@#'') (afterCalls id []))) = 9"
    by (simp add: getEncodingStats_eq len)
  note r = getEncodingStats_ratio [of "str ''xyz123!@#''" id "afterCalls id []"]
  have "compressionRatio (fst (getEncodingStats id (str ''xyz123!@#'') (afterCalls id [])))
       = Str (toFixed1 (doublePercent 9 9))"
    using r ne by (simp only: k c) simp
  moreover have "compressionRatio (fst (getEncodingStats id [] (afterCalls id []))) = Num 0"
    using getEncodingStats_ratio [of "[]" id "afterCalls id []"] by simp
  ultimately show ?thesis using ne k by (simp only: toFixed1_zero) simp
qed

text \<open>
  The claim as it was stated, with the exact ratio rounded to one decimal place, fails
  on the text of 29 letters \<open>x\<close> followed by 51 spaces (80 characters, 29 tokens): the
  exact ratio is 63.75, which rounds to 63.8 (so \<open>toFixed(1)\<close> would print it, taking
  the larger of two nearest decimals, and so does rounding half to even,
  \<open>exact_x29\<close>), but the double quotient 51 / 80 lies below 0.6375, its product with
  100 below 63.75, and the code returns \<open>63.7\<close>.
\<close>

theorem getEncodingStats_ratio_tie:
  "compressionRatio (fst (getEncodingStats id (str ''xxxxxxxxxxxxxxxxxxxxxxxxxxxxx                                                   '') (afterCalls id [])))
     = Str (str ''63.7'')
   \<and> toFixed1 (exactPercent
        (stats_result.characterCount (fst (getEncodingStats id (str ''xxxxxxxxxxxxxxxxxxxxxxxxxxxxx                                                   '') (afterCalls id []))))
        (stats_result.tokenCount (fst (getEncodingStats id (str ''xxxxxxxxxxxxxxxxxxxxxxxxxxxxx                                                   '') (afterCalls id [])))))
     = str ''63.8''
   \<and> compressionRatio (fst (getEncodingStats id (str ''xxxxxxxxxxxxxxxxxxxxxxxxxxxxx                                                   '') (afterCalls id [])))
     \<noteq> Str (toFixed1 (exactPercent
        (stats_result.characterCount (fst (getEncodingStats id (str ''xxxxxxxxxxxxxxxxxxxxxxxxxxxxx                                                   '') (afterCalls id []))))
        (stats_result.tokenCount (fst (getEncodingStats id (str ''xxxxxxxxxxxxxxxxxxxxxxxxxxxxx                                                   '') (afterCalls id []))))))"
proof -
  have ne: "str ''xxxxxxxxxxxxxxxxxxxxxxxxxxxxx                                                   '' \<noteq> []" by (simp add: str_def)
  have r: "fst (getEncodingStats id (str ''xxxxxxxxxxxxxxxxxxxxxxxxxxxxx                                                   '') (afterCalls id []))
     = \<lparr>characterCount = 80, tokenCount = 29, compressionRatio = Str (str ''63.7''),
        tokens = encode_result.tokens (fst (encodeText id (str ''xxxxxxxxxxxxxxxxxxxxxxxxxxxxx                                                   '') (afterCalls id [])))\<rparr>"
    using ne by (simp add: getEncodingStats_eq counts_x29 toFixed1_x29)
  have d: "str ''63.7'' \<noteq> str ''63.8''" by (simp add: str_def)
  show ?thesis using d by (simp only: r) (simp add: toFixed1_exact_x29)
qed

section \<open>Listing the whole vocabulary\<close>

text \<open>
  C8. \<open>getVocabulary\<close> with an empty search term and \<open>includeAscii = true\<close> returns
  exactly (number of entries of the vocabulary map) + 95 entries, the map having one
  entry per distinct seed unit: one entry per entry of the map, and one synthesized entry
  for each character code from 32 to 126, whose character is that code's and whose token
  is code + 2000. The result is sorted in ascending order of token.
\<close>

theorem getVocabulary_complete:
  "length (getVocabulary uc [] True (afterCalls uc cs))
     = length (vocabulary (afterCalls uc cs)) + 95
   \<and> length (vocabulary (afterCalls uc cs)) = card (set (seeds uc))
   \<and> sorted (map token (getVocabulary uc [] True (afterCalls uc cs)))
   \<and> mset (getVocabulary uc [] True (afterCalls uc cs))
       = mset (map vocabularyEntry (vocabulary (afterCalls uc cs)))
         + mset (map asciiEntry [32..126])
   \<and> (\<forall>i\<in>set [32..126]. character (asciiEntry i) = [word_of_int i]
          \<and> token (asciiEntry i) = i + 2000)"
  by (simp add: getVocabulary_all length_vocabulary_card asciiEntry_def fromCharCode_def
        del: upto_rec_numeral)

theorem getVocabulary_complete_witness:
  "(65::int) \<in> set [32..126]
   \<and> length (getVocabulary id [] True (afterCalls id []))
       = length (vocabulary (afterCalls id [])) + 95
   \<and> character (asciiEntry 65) = str ''A'' \<and> token (asciiEntry 65) = 2065"
  using getVocabulary_complete [of id "[]"]
  by (simp add: str_def del: upto_rec_numeral)

section \<open>Calls are pure\<close>

text \<open>
  C9. What a call of \<open>encodeText\<close>, \<open>decodeTokens\<close>, \<open>getEncodingStats\<close> or
  \<open>getVocabulary\<close> returns (the fields of the result and the contents of its trace)
  depends on its argument only, not on the calls made on the same tokenizer before; and
  the trace of a returned result reads the same after any further calls as it did when
  the result was returned. (The trace array is the only part of a result that the
  tokenizer keeps a reference to; the \<open>tokens\<close> array and the result object itself are
  created by the call and referred to by nothing else.)
\<close>

theorem calls_pure:
  "observe (invoke uc c (afterCalls uc cs)) = observe (invoke uc c (afterCalls uc cs'))
   \<and> traceOf (runCalls uc ds (snd (invoke uc c (afterCalls uc cs))))
         (fst (invoke uc c (afterCalls uc cs)))
       = traceOf (snd (invoke uc c (afterCalls uc cs))) (fst (invoke uc c (afterCalls uc cs)))"
proof
  have "vocabulary (afterCalls uc cs) = vocabulary (afterCalls uc cs')"
    "reverseVocabulary (afterCalls uc cs) = reverseVocabulary (afterCalls uc cs')"
    "asciiOffset (afterCalls uc cs) = asciiOffset (afterCalls uc cs')"
    using runCalls_fields [of uc cs "TokenVisualizer uc"]
      runCalls_fields [of uc cs' "TokenVisualizer uc"]
    by (simp_all add: afterCalls_def)
  then show "observe (invoke uc c (afterCalls uc cs)) = observe (invoke uc c (afterCalls uc cs'))"
    by (rule observe_same_vocabulary)
  show "traceOf (runCalls uc ds (snd (invoke uc c (afterCalls uc cs))))
         (fst (invoke uc c (afterCalls uc cs)))
       = traceOf (snd (invoke uc c (afterCalls uc cs))) (fst (invoke uc c (afterCalls uc cs)))"
    by (rule traceOf_stable)
qed

theorem calls_pure_witness:
  "observe (invoke id (EncodeText (str ''The cat''))
      (afterCalls id [DecodeTokens [5], GetEncodingStats (str ''a'')]))
   = observe (invoke id (EncodeText (str ''The cat'')) (afterCalls id []))
   \<and> fst (observe (invoke id (EncodeText (str ''The cat'')) (afterCalls id [])))
     = Encoded \<lparr>encode_result.tokens = [10, 2099, 2097, 2116], steps = 0,
               originalText = Some (str ''The cat''), tokenCount = Some 4,
               characterCount = Some 7\<rparr>"
proof -
  note p = calls_pure [of id "EncodeText (str ''The cat'')"
      "[DecodeTokens [5], GetEncodingStats (str ''a'')]" "[]" "[]"]
  have "fst (observe (invoke id (EncodeText (str ''The cat'')) (afterCalls id [])))
     = Encoded \<lparr>encode_result.tokens = [10, 2099, 2097, 2116], steps = 0,
               originalText = Some (str ''The cat''), tokenCount = Some 4,
               characterCount = Some 7\<rparr>"
    by (simp only: observe_The_cat fst_conv)
  with p [THEN conjunct1] show ?thesis by (intro conjI)
qed

section \<open>\<open>decodeTokens\<close>: the ASCII range\<close>

text \<open>
  C10 (as amended). No token id from 2000 on is a key of the inverse vocabulary map, and
  for every such id \<open>decodeTokens\<close> appends the one character whose code is \<open>d\<close>
  reduced modulo 65536, where \<open>d\<close> is the difference \<open>id - 2000\<close> as the code computes
  it in double precision: \<open>d\<close> is exactly \<open>id - 2000\<close> for every id below
  \<open>2 ^ 53 + 2000\<close>, and the nearest double to it above. A code beyond the 16-bit range
  is not rejected but wraps, and arbitrarily large ids are decoded without error.
\<close>

theorem decodeTokens_ascii_range:
  "2000 \<le> t \<Longrightarrow>
     map_of (reverseVocabulary (afterCalls uc cs)) t = None
   \<and> text (fst (decodeTokens [t] (afterCalls uc cs))) = [word_of_int (js_sub t 2000)]
   \<and> tokenText (afterCalls uc cs) t = [word_of_int (js_sub t 2000)]
   \<and> uint (word_of_int (js_sub t 2000) :: jschar) = js_sub t 2000 mod 65536
   \<and> (t < 2 ^ 53 + 2000 \<longrightarrow> js_sub t 2000 = t - 2000)"
  by (simp add: decode_text tokenText_ascii reverse_lookup_cases uint_word_of_int
        js_sub_def js_nearest_exact)

theorem decodeTokens_ascii_range_witness:
  "(2000::int) \<le> 67601 \<and> (67601::int) < 2 ^ 53 + 2000
   \<and> text (fst (decodeTokens [67601] (afterCalls id []))) = str ''A''"
  using decodeTokens_ascii_range [of 67601 id "[]"]
  by (simp add: str_def)

text \<open>
  With the exact difference in place of the computed one the statement fails on large
  ids: at \<open>2 ^ 60\<close> the computed difference is \<open>2 ^ 60 - 2048\<close> and the character
  appended has code 63488, not \<open>(2 ^ 60 - 2000) mod 65536 = 63536\<close>.
\<close>

theorem decodeTokens_ascii_range_inexact:
  "text (fst (decodeTokens [1152921504606846976] (afterCalls id [])))
     \<noteq> [word_of_int (1152921504606846976 - 2000)]"
  by (simp add: decode_text tokenText_ascii js_sub_2_60)

end
